theory Spec2Isabelle
  imports Main "HOL-Library.Word" "HOL-Library.Signed_Division"
begin

unbundle bit_operations_syntax

section \<open>Data model of the wiring layer\<close>

text \<open>
  The layer of \<^verbatim>\<open>spark_wiring.cpp\<close> sits between user sketches and the HAL. Pin numbers
  are \<^verbatim>\<open>uint16_t\<close>, levels and duty cycles \<^verbatim>\<open>uint8_t\<close>, read results \<^verbatim>\<open>int32_t\<close>,
  ticks \<^verbatim>\<open>system_tick_t\<close> (32 bits on the target), \<^verbatim>\<open>long\<close> and \<^verbatim>\<open>unsigned long\<close> are
  32 bits wide on the target.
\<close>

type_synonym pin_t = "16 word"
type_synonym u8 = "8 word"
type_synonym u32 = "32 word"

datatype PinMode =
  OUTPUT | INPUT | INPUT_PULLUP | INPUT_PULLDOWN
  | AF_OUTPUT_PUSHPULL | AF_OUTPUT_DRAIN | AN_INPUT | NONE

text \<open>
  One entry of the board table \<^verbatim>\<open>PIN_MAP\<close>. The fields the layer reads are the
  configured mode, the ADC channel (the sentinel \<^verbatim>\<open>NONE\<close> is \<open>None\<close>) and the PWM
  timer (the \<^verbatim>\<open>NULL\<close> pointer is \<open>None\<close>).
\<close>

record STM32_Pin_Info =
  pin_mode :: PinMode
  adc_channel :: "nat option"
  timer_peripheral :: "nat option"

text \<open>
  The constants of the board header, which is not part of the source file: they are
  parameters of every operation. They are macros of type \<^verbatim>\<open>int\<close>, so a comparison with
  a \<^verbatim>\<open>uint16_t\<close> pin is a comparison of the numbers.
\<close>

record board =
  TOTAL_PINS :: nat
  FIRST_ANALOG_PIN :: nat
  SCK :: nat
  MOSI :: nat
  MISO :: nat
  SCL :: nat
  SDA :: nat
  RX :: nat
  TX :: nat

text \<open>
  \<^verbatim>\<open>HIGH\<close> and \<^verbatim>\<open>LOW\<close> are the macros \<^verbatim>\<open>0x1\<close> and \<^verbatim>\<open>0x0\<close>: they take the width of the
  place they are used in (a \<^verbatim>\<open>uint8_t\<close> argument, an \<^verbatim>\<open>int32_t\<close> result).
\<close>

definition LOW :: "'a::len word" where
  "LOW = 0"

definition HIGH :: "'a::len word" where
  "HIGH = 1"

definition LSBFIRST :: u8 where
  "LSBFIRST = 0"

definition MSBFIRST :: u8 where
  "MSBFIRST = 1"

text \<open>Every call into the HAL is recorded, in order, in a log.\<close>

datatype hal_call =
  Pin_Mode pin_t PinMode
  | GPIO_Write pin_t u8
  | GPIO_Read pin_t
  | ADC_Read pin_t
  | PWM_Write pin_t u8

text \<open>
  The state the pin operations see: the board table, the enabled flag of the three bus
  peripherals, the log of HAL calls, and the hardware behind the HAL's two read
  primitives, which answer from the history of HAL calls so far.
\<close>

record hw =
  PIN_MAP :: "STM32_Pin_Info list"
  SPI_isEnabled :: bool
  Wire_isEnabled :: bool
  Serial1_isEnabled :: bool
  hal_log :: "hal_call list"
  gpio_in :: "hal_call list \<Rightarrow> pin_t \<Rightarrow> u32"
  adc_in :: "hal_call list \<Rightarrow> pin_t \<Rightarrow> u32"

text \<open>Indexing the board table outside its bounds is a fault of the program.\<close>

datatype fault = PIN_MAP_out_of_bounds

definition PIN_MAP_at :: "hw \<Rightarrow> pin_t \<Rightarrow> fault + STM32_Pin_Info" where
  "PIN_MAP_at w pin =
     (if unat pin < length (PIN_MAP w) then Inr (PIN_MAP w ! unat pin)
      else Inl PIN_MAP_out_of_bounds)"

section \<open>The HAL\<close>

text \<open>
  Modelled from the spec: the HAL primitives \<^verbatim>\<open>HAL_Pin_Mode\<close>, \<^verbatim>\<open>HAL_GPIO_Write\<close>,
  \<^verbatim>\<open>HAL_GPIO_Read\<close>, \<^verbatim>\<open>HAL_ADC_Read\<close> and \<^verbatim>\<open>HAL_PWM_Write\<close> are external to the source
  file. Setting the mode updates the mode field of the board table; every primitive is
  logged; the reads return what the hardware presents.
\<close>

definition HAL_Pin_Mode :: "pin_t \<Rightarrow> PinMode \<Rightarrow> hw \<Rightarrow> hw" where
  "HAL_Pin_Mode pin setMode w =
     w\<lparr>PIN_MAP :=
          (if unat pin < length (PIN_MAP w)
           then (PIN_MAP w)[unat pin := (PIN_MAP w ! unat pin)\<lparr>pin_mode := setMode\<rparr>]
           else PIN_MAP w),
        hal_log := hal_log w @ [Pin_Mode pin setMode]\<rparr>"

definition HAL_GPIO_Write :: "pin_t \<Rightarrow> u8 \<Rightarrow> hw \<Rightarrow> hw" where
  "HAL_GPIO_Write pin v w = w\<lparr>hal_log := hal_log w @ [GPIO_Write pin v]\<rparr>"

definition HAL_GPIO_Read :: "pin_t \<Rightarrow> hw \<Rightarrow> u32 \<times> hw" where
  "HAL_GPIO_Read pin w =
     (gpio_in w (hal_log w) pin, w\<lparr>hal_log := hal_log w @ [GPIO_Read pin]\<rparr>)"

definition HAL_ADC_Read :: "pin_t \<Rightarrow> hw \<Rightarrow> u32 \<times> hw" where
  "HAL_ADC_Read pin w =
     (adc_in w (hal_log w) pin, w\<lparr>hal_log := hal_log w @ [ADC_Read pin]\<rparr>)"

definition HAL_PWM_Write :: "pin_t \<Rightarrow> u8 \<Rightarrow> hw \<Rightarrow> hw" where
  "HAL_PWM_Write pin v w = w\<lparr>hal_log := hal_log w @ [PWM_Write pin v]\<rparr>"

section \<open>Pin arbitration and pin I/O\<close>

definition pinAvailable :: "board \<Rightarrow> hw \<Rightarrow> pin_t \<Rightarrow> bool" where
  "pinAvailable b w pin =
     (if SPI_isEnabled w = True \<and> (unat pin = SCK b \<or> unat pin = MOSI b \<or> unat pin = MISO b)
      then False
      else if Wire_isEnabled w = True \<and> (unat pin = SCL b \<or> unat pin = SDA b)
      then False
      else if Serial1_isEnabled w = True \<and> (unat pin = RX b \<or> unat pin = TX b)
      then False
      else True)"

definition pinMode :: "board \<Rightarrow> pin_t \<Rightarrow> PinMode \<Rightarrow> hw \<Rightarrow> hw" where
  "pinMode b pin setMode w =
     (if TOTAL_PINS b \<le> unat pin \<or> setMode = NONE then w
      else if \<not> pinAvailable b w pin then w
      else HAL_Pin_Mode pin setMode w)"

definition digitalWrite :: "board \<Rightarrow> pin_t \<Rightarrow> u8 \<Rightarrow> hw \<Rightarrow> fault + hw" where
  "digitalWrite b pin v w =
     (if TOTAL_PINS b \<le> unat pin then Inr w
      else case PIN_MAP_at w pin of
        Inl e \<Rightarrow> Inl e
      | Inr ent \<Rightarrow>
          if pin_mode ent = INPUT \<or> pin_mode ent = INPUT_PULLUP
             \<or> pin_mode ent = INPUT_PULLDOWN \<or> pin_mode ent = AN_INPUT
             \<or> pin_mode ent = NONE
          then Inr w
          else if \<not> pinAvailable b w pin then Inr w
          else Inr (HAL_GPIO_Write pin v w))"

definition digitalRead :: "board \<Rightarrow> pin_t \<Rightarrow> hw \<Rightarrow> fault + u32 \<times> hw" where
  "digitalRead b pin w =
     (if TOTAL_PINS b \<le> unat pin then Inr (LOW, w)
      else case PIN_MAP_at w pin of
        Inl e \<Rightarrow> Inl e
      | Inr ent \<Rightarrow>
          if pin_mode ent = NONE \<or> pin_mode ent = AF_OUTPUT_PUSHPULL
             \<or> pin_mode ent = AF_OUTPUT_DRAIN
          then Inr (LOW, w)
          else if \<not> pinAvailable b w pin then Inr (LOW, w)
          else Inr (HAL_GPIO_Read pin w))"

text \<open>
  The short form of an analog pin: \<^verbatim>\<open>pin = pin + FIRST_ANALOG_PIN\<close> is computed in
  \<^verbatim>\<open>int\<close> and stored back into the \<^verbatim>\<open>uint16_t\<close>.
\<close>

definition analog_pin :: "board \<Rightarrow> pin_t \<Rightarrow> pin_t" where
  "analog_pin b pin =
     (if unat pin < FIRST_ANALOG_PIN b then of_nat (unat pin + FIRST_ANALOG_PIN b) else pin)"

definition analogRead :: "board \<Rightarrow> pin_t \<Rightarrow> hw \<Rightarrow> fault + u32 \<times> hw" where
  "analogRead b pin0 w =
     (let pin = analog_pin b pin0 in
      if \<not> pinAvailable b w pin then Inr (LOW, w)
      else if TOTAL_PINS b \<le> unat pin then Inr (LOW, w)
      else case PIN_MAP_at w pin of
        Inl e \<Rightarrow> Inl e
      | Inr ent \<Rightarrow>
          if adc_channel ent = None then Inr (LOW, w)
          else Inr (HAL_ADC_Read pin w))"

definition analogWrite :: "board \<Rightarrow> pin_t \<Rightarrow> u8 \<Rightarrow> hw \<Rightarrow> fault + hw" where
  "analogWrite b pin v w =
     (if TOTAL_PINS b \<le> unat pin then Inr w
      else case PIN_MAP_at w pin of
        Inl e \<Rightarrow> Inl e
      | Inr ent \<Rightarrow>
          if timer_peripheral ent = None then Inr w
          else if \<not> pinAvailable b w pin then Inr w
          else if pin_mode ent \<noteq> OUTPUT \<and> pin_mode ent \<noteq> AF_OUTPUT_PUSHPULL then Inr w
          else Inr (HAL_PWM_Write pin v w))"

text \<open>The board table has one entry per pin.\<close>

definition table_ok :: "board \<Rightarrow> hw \<Rightarrow> bool" where
  "table_ok b w = (length (PIN_MAP w) = TOTAL_PINS b)"

text \<open>
  The arbitration rule in the words of the specification: a bus peripheral that is
  enabled claims its pins.
\<close>

definition bus_claims :: "board \<Rightarrow> hw \<Rightarrow> pin_t \<Rightarrow> bool" where
  "bus_claims b w pin =
     (SPI_isEnabled w \<and> unat pin \<in> {SCK b, MOSI b, MISO b}
      \<or> Wire_isEnabled w \<and> unat pin \<in> {SCL b, SDA b}
      \<or> Serial1_isEnabled w \<and> unat pin \<in> {RX b, TX b})"

definition reserved_pin :: "board \<Rightarrow> pin_t \<Rightarrow> bool" where
  "reserved_pin b pin = (unat pin \<in> {SCK b, MOSI b, MISO b, SCL b, SDA b, RX b, TX b})"

section \<open>Time base and cooperative delay\<close>

text \<open>
  The build configuration: the switch \<^verbatim>\<open>SPARK_WLAN_ENABLE\<close> that compiles the yield to
  the network loop in, and the service period \<^verbatim>\<open>SPARK_LOOP_DELAY_MILLIS\<close>. Both come
  from headers that are not part of the source file.
\<close>

record build =
  SPARK_WLAN_ENABLE :: bool
  SPARK_LOOP_DELAY_MILLIS :: u32

text \<open>
  The state \<^verbatim>\<open>delay\<close> sees. The millisecond counter is read through
  \<^verbatim>\<open>GetSystem1MsTick\<close>: \<open>tick_src w n\<close> is what the \<open>n\<close>-th read returns, for any
  behaviour of the counter. The flag \<^verbatim>\<open>SPARK_FLASH_UPDATE\<close> is set and cleared by the
  network code: \<open>flash_update_src w n\<close> is its value once the service routine has run
  \<open>n\<close> times.
\<close>

record sys =
  tick_src :: "nat \<Rightarrow> u32"
  tick_reads :: nat
  wdt_kicks :: nat
  SPARK_WLAN_SETUP :: bool
  SPARK_WLAN_SLEEP :: bool
  spark_loop_total_millis :: u32
  wlan_loops :: nat
  flash_update_src :: "nat \<Rightarrow> bool"

text \<open>
  Modelled from the spec: \<^verbatim>\<open>GetSystem1MsTick\<close>, \<^verbatim>\<open>KICK_WDT\<close>, \<^verbatim>\<open>SPARK_WLAN_Loop\<close> and
  the flag \<^verbatim>\<open>SPARK_FLASH_UPDATE\<close> are external to the source file. The service routine
  resets the accumulator \<^verbatim>\<open>spark_loop_total_millis\<close> to 0 when it runs.
\<close>

definition GetSystem1MsTick :: "sys \<Rightarrow> u32 \<times> sys" where
  "GetSystem1MsTick w = (tick_src w (tick_reads w), w\<lparr>tick_reads := Suc (tick_reads w)\<rparr>)"

definition KICK_WDT :: "sys \<Rightarrow> sys" where
  "KICK_WDT w = w\<lparr>wdt_kicks := Suc (wdt_kicks w)\<rparr>"

definition SPARK_WLAN_Loop :: "sys \<Rightarrow> sys" where
  "SPARK_WLAN_Loop w = w\<lparr>spark_loop_total_millis := 0, wlan_loops := Suc (wlan_loops w)\<rparr>"

definition SPARK_FLASH_UPDATE :: "sys \<Rightarrow> bool" where
  "SPARK_FLASH_UPDATE w = flash_update_src w (wlan_loops w)"

definition millis :: "sys \<Rightarrow> u32 \<times> sys" where
  "millis w = GetSystem1MsTick w"

text \<open>
  The \<^verbatim>\<open>do ... while (SPARK_FLASH_UPDATE)\<close> loop of \<^verbatim>\<open>delay\<close>. It runs for as long as
  the flag stays set, so it takes fuel: \<open>None\<close> is a loop still running when the fuel
  is used up.
\<close>

fun wlan_service :: "nat \<Rightarrow> sys \<Rightarrow> sys option" where
  "wlan_service 0 w = None"
| "wlan_service (Suc n) w =
     (let w1 = SPARK_WLAN_Loop w in
      if SPARK_FLASH_UPDATE w1 then wlan_service n w1 else Some w1)"

text \<open>
  The \<^verbatim>\<open>while (1)\<close> loop of \<^verbatim>\<open>delay\<close>, one unit of fuel per iteration. The locals are
  \<^verbatim>\<open>ms\<close>, \<^verbatim>\<open>last_millis\<close> and \<^verbatim>\<open>spark_loop_elapsed_millis\<close>. \<^verbatim>\<open>elapsed_millis\<close> is a
  \<^verbatim>\<open>long\<close>: the test \<^verbatim>\<open>elapsed_millis < 0\<close> reads it signed, and the comparisons with
  the \<^verbatim>\<open>unsigned long\<close> \<^verbatim>\<open>ms\<close> and with \<^verbatim>\<open>spark_loop_elapsed_millis\<close> convert it to
  unsigned.
\<close>

fun delay_loop :: "build \<Rightarrow> nat \<Rightarrow> u32 \<Rightarrow> u32 \<Rightarrow> u32 \<Rightarrow> sys \<Rightarrow> sys option" where
  "delay_loop cfg 0 ms last_millis spark_loop_elapsed_millis w = None"
| "delay_loop cfg (Suc n) ms last_millis spark_loop_elapsed_millis w =
     (let w1 = KICK_WDT w;
          (current_millis, w2) = GetSystem1MsTick w1;
          elapsed0 = current_millis - last_millis;
          elapsed_millis = (if sint elapsed0 < 0 then last_millis + current_millis else elapsed0)
      in
        if ms \<le> elapsed_millis then Some w2
        else if \<not> SPARK_WLAN_ENABLE cfg then
          delay_loop cfg n ms last_millis spark_loop_elapsed_millis w2
        else if \<not> SPARK_WLAN_SETUP w2 \<or> SPARK_WLAN_SLEEP w2 then
          delay_loop cfg n ms last_millis spark_loop_elapsed_millis w2
        else if spark_loop_elapsed_millis \<le> elapsed_millis
                \<or> SPARK_LOOP_DELAY_MILLIS cfg \<le> spark_loop_total_millis w2 then
          (case wlan_service n w2 of
             None \<Rightarrow> None
           | Some w3 \<Rightarrow>
               delay_loop cfg n ms last_millis (elapsed_millis + SPARK_LOOP_DELAY_MILLIS cfg) w3)
        else delay_loop cfg n ms last_millis spark_loop_elapsed_millis w2)"

definition delay :: "build \<Rightarrow> nat \<Rightarrow> u32 \<Rightarrow> sys \<Rightarrow> sys option" where
  "delay cfg fuel ms w =
     (let w0 = (if SPARK_WLAN_ENABLE cfg
                then w\<lparr>spark_loop_total_millis := spark_loop_total_millis w + ms\<rparr> else w);
          (last_millis, w1) = GetSystem1MsTick w0
      in delay_loop cfg fuel ms last_millis (SPARK_LOOP_DELAY_MILLIS cfg) w1)"

text \<open>
  The elapsed time in the words of the specification: the difference of the current
  and the start tick, and their sum where that difference, read signed, is negative.
\<close>

definition elapsed_time :: "u32 \<Rightarrow> u32 \<Rightarrow> u32" where
  "elapsed_time start current =
     (if sint (current - start) < 0 then start + current else current - start)"

text \<open>The ticks that have passed between two reads of the counter, which wraps.\<close>

definition ticks_between :: "u32 \<Rightarrow> u32 \<Rightarrow> u32" where
  "ticks_between start current = current - start"

text \<open>
  Two abbreviations for the proofs: the state after the entry code of \<^verbatim>\<open>delay\<close> (the
  accumulator updated, the start tick read) and the state after the watchdog kick and
  the tick read that open every iteration.
\<close>

definition delay_entry :: "build \<Rightarrow> u32 \<Rightarrow> sys \<Rightarrow> sys" where
  "delay_entry cfg ms w =
     (if SPARK_WLAN_ENABLE cfg
      then w\<lparr>spark_loop_total_millis := spark_loop_total_millis w + ms\<rparr> else w)
     \<lparr>tick_reads := Suc (tick_reads w)\<rparr>"

definition after_poll :: "sys \<Rightarrow> sys" where
  "after_poll w = w\<lparr>wdt_kicks := Suc (wdt_kicks w), tick_reads := Suc (tick_reads w)\<rparr>"

section \<open>Bit-bang helpers and range mapping\<close>

text \<open>
  \<^verbatim>\<open>shiftIn\<close>: the body of the \<^verbatim>\<open>for\<close> loop, for \<^verbatim>\<open>i\<close> from 0 to 7. The result of
  \<^verbatim>\<open>digitalRead\<close> is shifted as an \<^verbatim>\<open>int\<close> and or-ed into the \<^verbatim>\<open>uint8_t\<close> \<^verbatim>\<open>value\<close>.
\<close>

function shiftIn_loop ::
  "board \<Rightarrow> u8 \<Rightarrow> u8 \<Rightarrow> u8 \<Rightarrow> nat \<Rightarrow> u8 \<Rightarrow> hw \<Rightarrow> fault + u8 \<times> hw" where
  "shiftIn_loop b dataPin clockPin bitOrder i val w =
     (if i < 8 then
        case digitalWrite b (ucast clockPin) HIGH w of
          Inl e \<Rightarrow> Inl e
        | Inr w1 \<Rightarrow>
            (case digitalRead b (ucast dataPin) w1 of
               Inl e \<Rightarrow> Inl e
             | Inr (rv, w2) \<Rightarrow>
                 (case digitalWrite b (ucast clockPin) LOW w2 of
                    Inl e \<Rightarrow> Inl e
                  | Inr w3 \<Rightarrow>
                      shiftIn_loop b dataPin clockPin bitOrder (i + 1)
                        (if bitOrder = LSBFIRST
                         then ucast ((ucast val :: u32) OR push_bit i rv)
                         else ucast ((ucast val :: u32) OR push_bit (7 - i) rv))
                        w3))
      else Inr (val, w))"
  by pat_completeness auto
termination
  by (relation "measure (\<lambda>(b, dataPin, clockPin, bitOrder, i, val, w). 8 - i)") auto

definition shiftIn :: "board \<Rightarrow> u8 \<Rightarrow> u8 \<Rightarrow> u8 \<Rightarrow> hw \<Rightarrow> fault + u8 \<times> hw" where
  "shiftIn b dataPin clockPin bitOrder w = shiftIn_loop b dataPin clockPin bitOrder 0 0 w"

text \<open>The C idiom \<^verbatim>\<open>!!x\<close>: 1 if \<^verbatim>\<open>x\<close> is not zero, else 0.\<close>

definition not_not :: "u32 \<Rightarrow> u8" where
  "not_not x = (if x \<noteq> 0 then 1 else 0)"

function shiftOut_loop ::
  "board \<Rightarrow> u8 \<Rightarrow> u8 \<Rightarrow> u8 \<Rightarrow> u8 \<Rightarrow> nat \<Rightarrow> hw \<Rightarrow> fault + hw" where
  "shiftOut_loop b dataPin clockPin bitOrder val i w =
     (if i < 8 then
        case digitalWrite b (ucast dataPin)
               (if bitOrder = LSBFIRST then not_not (ucast val AND push_bit i 1)
                else not_not (ucast val AND push_bit (7 - i) 1)) w of
          Inl e \<Rightarrow> Inl e
        | Inr w1 \<Rightarrow>
            (case digitalWrite b (ucast clockPin) HIGH w1 of
               Inl e \<Rightarrow> Inl e
             | Inr w2 \<Rightarrow>
                 (case digitalWrite b (ucast clockPin) LOW w2 of
                    Inl e \<Rightarrow> Inl e
                  | Inr w3 \<Rightarrow> shiftOut_loop b dataPin clockPin bitOrder val (i + 1) w3))
      else Inr w)"
  by pat_completeness auto
termination
  by (relation "measure (\<lambda>(b, dataPin, clockPin, bitOrder, val, i, w). 8 - i)") auto

definition shiftOut :: "board \<Rightarrow> u8 \<Rightarrow> u8 \<Rightarrow> u8 \<Rightarrow> u8 \<Rightarrow> hw \<Rightarrow> fault + hw" where
  "shiftOut b dataPin clockPin bitOrder val w = shiftOut_loop b dataPin clockPin bitOrder val 0 w"

declare shiftIn_loop.simps [simp del] shiftOut_loop.simps [simp del]

text \<open>\<^verbatim>\<open>shiftOut\<close> followed by \<^verbatim>\<open>shiftIn\<close>: the byte that comes back.\<close>

definition shift_round_trip ::
  "board \<Rightarrow> u8 \<Rightarrow> u8 \<Rightarrow> u8 \<Rightarrow> u8 \<Rightarrow> u8 \<Rightarrow> u8 \<Rightarrow> hw \<Rightarrow> fault + u8" where
  "shift_round_trip b outData outClock inData inClock bitOrder val w =
     (case shiftOut b outData outClock bitOrder val w of
        Inl e \<Rightarrow> Inl e
      | Inr w1 \<Rightarrow>
          (case shiftIn b inData inClock bitOrder w1 of
             Inl e \<Rightarrow> Inl e
           | Inr (r, w2) \<Rightarrow> Inr r))"

text \<open>
  What \<^verbatim>\<open>digitalWrite\<close> and \<^verbatim>\<open>digitalRead\<close> require of a pin to reach the HAL.
\<close>

definition writable :: "board \<Rightarrow> hw \<Rightarrow> pin_t \<Rightarrow> bool" where
  "writable b w pin =
     (unat pin < TOTAL_PINS b \<and> pinAvailable b w pin
      \<and> pin_mode (PIN_MAP w ! unat pin) \<in> {OUTPUT, AF_OUTPUT_PUSHPULL, AF_OUTPUT_DRAIN})"

definition readable :: "board \<Rightarrow> hw \<Rightarrow> pin_t \<Rightarrow> bool" where
  "readable b w pin =
     (unat pin < TOTAL_PINS b \<and> pinAvailable b w pin
      \<and> pin_mode (PIN_MAP w ! unat pin) \<notin> {NONE, AF_OUTPUT_PUSHPULL, AF_OUTPUT_DRAIN})"

subsection \<open>Hardware between a data output and a data input\<close>

text \<open>
  The levels the HAL has driven on a pin, in order, and the number of samples it has
  taken of a pin, both read off the log of HAL calls.
\<close>

fun driven_levels :: "pin_t \<Rightarrow> hal_call list \<Rightarrow> bool list" where
  "driven_levels pin [] = []"
| "driven_levels pin (GPIO_Write p v # cs) =
     (if p = pin then (v \<noteq> 0) # driven_levels pin cs else driven_levels pin cs)"
| "driven_levels pin (c # cs) = driven_levels pin cs"

fun samples_taken :: "pin_t \<Rightarrow> hal_call list \<Rightarrow> nat" where
  "samples_taken pin [] = 0"
| "samples_taken pin (GPIO_Read p # cs) =
     (if p = pin then Suc (samples_taken pin cs) else samples_taken pin cs)"
| "samples_taken pin (c # cs) = samples_taken pin cs"

text \<open>
  Two behaviours of the hardware behind \<^verbatim>\<open>HAL_GPIO_Read\<close>, for the field \<open>gpio_in\<close>.
  A wire from the output pin to the input pin: the input reads the level that was
  driven last on the output (low before any write).
\<close>

definition wire_loopback :: "pin_t \<Rightarrow> pin_t \<Rightarrow> hal_call list \<Rightarrow> pin_t \<Rightarrow> u32" where
  "wire_loopback outPin inPin log pin =
     (if pin = inPin \<and> driven_levels outPin log \<noteq> [] \<and> last (driven_levels outPin log)
      then 1 else 0)"

text \<open>
  A shift register from the output pin to the input pin: the \<open>n\<close>-th sample of the
  input is the \<open>n\<close>-th level driven on the output (low once the register is empty).
\<close>

definition shift_register_loopback ::
  "pin_t \<Rightarrow> pin_t \<Rightarrow> hal_call list \<Rightarrow> pin_t \<Rightarrow> u32" where
  "shift_register_loopback outPin inPin log pin =
     (if pin = inPin \<and> samples_taken inPin log < length (driven_levels outPin log)
         \<and> driven_levels outPin log ! samples_taken inPin log
      then 1 else 0)"

text \<open>
  For the proofs: the bit position that iteration \<open>i\<close> of either loop works on, and the
  byte \<^verbatim>\<open>shiftIn\<close> assembles from a list of samples, starting at iteration \<open>i\<close> with
  the bits collected so far.
\<close>

definition bit_pos :: "u8 \<Rightarrow> nat \<Rightarrow> nat" where
  "bit_pos bitOrder i = (if bitOrder = LSBFIRST then i else 7 - i)"

fun assemble :: "u8 \<Rightarrow> nat \<Rightarrow> u8 \<Rightarrow> bool list \<Rightarrow> u8" where
  "assemble bitOrder i val [] = val"
| "assemble bitOrder i val (x # xs) =
     assemble bitOrder (Suc i) (val OR push_bit (bit_pos bitOrder i) (of_bool x)) xs"

subsection \<open>Range mapping\<close>

text \<open>
  The function \<^verbatim>\<open>map\<close> of the source is \<open>map_long\<close> here, \<open>map\<close> being the list
  function. \<^verbatim>\<open>long\<close> arithmetic on the target: 32 bits, two's complement, wrapping;
  the division truncates toward zero. Dividing by zero is undefined: it is \<open>None\<close>.
\<close>

definition sdiv_long :: "u32 \<Rightarrow> u32 \<Rightarrow> u32" where
  "sdiv_long a b = word_of_int (sint a sdiv sint b)"

definition map_long :: "u32 \<Rightarrow> u32 \<Rightarrow> u32 \<Rightarrow> u32 \<Rightarrow> u32 \<Rightarrow> u32 option" where
  "map_long x fromStart fromEnd toStart toEnd =
     (if fromEnd - fromStart = 0 then None
      else Some (sdiv_long ((x - fromStart) * (toEnd - toStart)) (fromEnd - fromStart) + toStart))"

text \<open>
  The formula in the words of the specification, on the integers, with the division
  that truncates toward zero.
\<close>

definition LinearMap :: "int \<Rightarrow> int \<Rightarrow> int \<Rightarrow> int \<Rightarrow> int \<Rightarrow> int" where
  "LinearMap x inLo inHi outLo outHi = ((x - inLo) * (outHi - outLo)) sdiv (inHi - inLo) + outLo"

text \<open>The integers a \<^verbatim>\<open>long\<close> holds.\<close>

definition fits_long :: "int \<Rightarrow> bool" where
  "fits_long k = (- (2 ^ 31) \<le> k \<and> k < 2 ^ 31)"

section \<open>A concrete board\<close>

text \<open>
  A board with 21 pins, the analog pins starting at 10, and the bus pins where the Spark
  Core has them. Pins 5, 6 and 7 are configured as outputs, pin 2 as an input; the
  other pins are not configured.
\<close>

definition core_board :: board where
  "core_board = \<lparr>TOTAL_PINS = 21, FIRST_ANALOG_PIN = 10, SCK = 13, MOSI = 15, MISO = 14,
                  SCL = 1, SDA = 0, RX = 18, TX = 19\<rparr>"

definition core_entry :: "nat \<Rightarrow> STM32_Pin_Info" where
  "core_entry i =
     \<lparr>pin_mode = (if i \<in> {5, 6, 7} then OUTPUT else if i = 2 then INPUT else NONE),
      adc_channel = (if 10 \<le> i \<and> i < 18 then Some (i - 10) else None),
      timer_peripheral = (if i \<in> {0, 1, 10, 11, 14, 15, 16, 17} then Some i else None)\<rparr>"

definition core_hw :: "bool \<Rightarrow> bool \<Rightarrow> bool \<Rightarrow> hw" where
  "core_hw spi i2c uart =
     \<lparr>PIN_MAP = map core_entry [0..<21],
      SPI_isEnabled = spi, Wire_isEnabled = i2c, Serial1_isEnabled = uart,
      hal_log = [],
      gpio_in = (\<lambda>log pin. 1),
      adc_in = (\<lambda>log pin. 1234)\<rparr>"

section \<open>Concrete systems for the delay\<close>

text \<open>
  Two builds, with and without the network loop, and a system whose network is set up
  and awake, with a given tick source and a given value of the accumulator. The tick
  sources: one that passes through the wrap of the counter, one that jumps, and one that
  starts at \<open>0x30000000\<close> and advances by one tick per read.
\<close>

definition wlan_build :: build where
  "wlan_build = \<lparr>SPARK_WLAN_ENABLE = True, SPARK_LOOP_DELAY_MILLIS = 1000\<rparr>"

definition plain_build :: build where
  "plain_build = \<lparr>SPARK_WLAN_ENABLE = False, SPARK_LOOP_DELAY_MILLIS = 1000\<rparr>"

definition sys_at :: "(nat \<Rightarrow> u32) \<Rightarrow> u32 \<Rightarrow> sys" where
  "sys_at ticks pending =
     \<lparr>tick_src = ticks, tick_reads = 0, wdt_kicks = 0,
      SPARK_WLAN_SETUP = True, SPARK_WLAN_SLEEP = False,
      spark_loop_total_millis = pending, wlan_loops = 0,
      flash_update_src = (\<lambda>n. False)\<rparr>"

definition wrapping_ticks :: "nat \<Rightarrow> u32" where
  "wrapping_ticks n = 0xFFFFFFFE + of_nat n"

definition jumping_ticks :: "nat \<Rightarrow> u32" where
  "jumping_ticks n = (if n = 0 then 0x30000000 else 0xB0000000)"

definition steady_ticks :: "nat \<Rightarrow> u32" where
  "steady_ticks n = 0x30000000 + of_nat n"

section \<open>Concrete hardware for the shift helpers\<close>

text \<open>
  The concrete board with pin 7 (data out) connected to pin 2 (data in), once by a wire
  and once through a shift register.
\<close>

definition wire_hw :: hw where
  "wire_hw = (core_hw False False False)\<lparr>gpio_in := wire_loopback 7 2\<rparr>"

definition shift_register_hw :: hw where
  "shift_register_hw = (core_hw False False False)\<lparr>gpio_in := shift_register_loopback 7 2\<rparr>"

section \<open>Properties of pin arbitration and pin I/O\<close>

lemmas core_simps = core_board_def core_hw_def core_entry_def PIN_MAP_at_def pinAvailable_def
  bus_claims_def table_ok_def

lemma pinAvailable_iff: "pinAvailable b w pin = (\<not> bus_claims b w pin)"
  by (auto simp: pinAvailable_def bus_claims_def)

lemma PIN_MAP_at_in_range:
  "table_ok b w \<Longrightarrow> unat pin < TOTAL_PINS b \<Longrightarrow> PIN_MAP_at w pin = Inr (PIN_MAP w ! unat pin)"
  by (simp add: table_ok_def PIN_MAP_at_def)

text \<open>
  Claim C10. \<^verbatim>\<open>pinAvailable\<close> does no range validation of its own: every pin that is
  not one of the seven reserved bus pins is available, whatever its number (so also
  every pin at or beyond \<^verbatim>\<open>TOTAL_PINS\<close>), and a pin is unavailable only if it is a
  reserved pin whose bus is enabled.
\<close>

theorem pinAvailable_reserved_only:
  "(\<not> reserved_pin b pin \<longrightarrow> pinAvailable b w pin)
   \<and> (\<not> pinAvailable b w pin \<longrightarrow> reserved_pin b pin \<and> bus_claims b w pin)"
  by (auto simp: pinAvailable_def bus_claims_def reserved_pin_def split: if_splits)

theorem pinAvailable_reserved_only_witness:
  "\<not> reserved_pin core_board 100 \<and> TOTAL_PINS core_board \<le> unat (100 :: pin_t)
   \<and> pinAvailable core_board (core_hw True True True) 100
   \<and> \<not> pinAvailable core_board (core_hw True False False) 13
   \<and> reserved_pin core_board 13 \<and> bus_claims core_board (core_hw True False False) 13"
  using pinAvailable_reserved_only [of core_board 100 "core_hw True True True"]
    pinAvailable_reserved_only [of core_board 13 "core_hw True False False"]
  by (simp add: core_board_def core_hw_def reserved_pin_def pinAvailable_def)

text \<open>
  Claim C4. For a pin at or beyond \<^verbatim>\<open>TOTAL_PINS\<close>, \<^verbatim>\<open>pinMode\<close>, \<^verbatim>\<open>digitalWrite\<close>,
  \<^verbatim>\<open>digitalRead\<close> and \<^verbatim>\<open>analogWrite\<close> leave the state, and so the log of HAL calls, as
  it is, and \<^verbatim>\<open>digitalRead\<close> returns 0. For \<^verbatim>\<open>analogRead\<close> the same holds when the
  pin index after the short-form remapping is at or beyond \<^verbatim>\<open>TOTAL_PINS\<close>.
\<close>

theorem range_guard:
  "(TOTAL_PINS b \<le> unat pin \<longrightarrow>
      pinMode b pin m w = w \<and> digitalWrite b pin v w = Inr w
      \<and> digitalRead b pin w = Inr (0, w) \<and> analogWrite b pin v w = Inr w)
   \<and> (TOTAL_PINS b \<le> unat (analog_pin b apin) \<longrightarrow> analogRead b apin w = Inr (0, w))"
  by (simp add: pinMode_def digitalWrite_def digitalRead_def analogWrite_def analogRead_def
      LOW_def Let_def)

theorem range_guard_witness:
  "TOTAL_PINS core_board \<le> unat (21 :: pin_t)
   \<and> TOTAL_PINS core_board \<le> unat (analog_pin core_board 30)
   \<and> pinMode core_board 21 OUTPUT (core_hw False False False) = core_hw False False False
   \<and> digitalWrite core_board 21 1 (core_hw False False False) = Inr (core_hw False False False)
   \<and> digitalRead core_board 21 (core_hw False False False) = Inr (0, core_hw False False False)
   \<and> analogWrite core_board 21 1 (core_hw False False False) = Inr (core_hw False False False)
   \<and> analogRead core_board 30 (core_hw False False False) = Inr (0, core_hw False False False)"
proof -
  have h1: "TOTAL_PINS core_board \<le> unat (21 :: pin_t)"
    by (simp add: core_board_def)
  have h2: "TOTAL_PINS core_board \<le> unat (analog_pin core_board 30)"
    by (simp add: core_board_def analog_pin_def)
  show ?thesis
    using h1 h2 range_guard [of core_board 21 OUTPUT "core_hw False False False" 1 30]
    by simp
qed

text \<open>
  Claim C5. If \<^verbatim>\<open>digitalWrite\<close> invokes the HAL, the pin is in range, available, and
  its mode is \<^verbatim>\<open>OUTPUT\<close>, \<^verbatim>\<open>AF_OUTPUT_PUSHPULL\<close> or \<^verbatim>\<open>AF_OUTPUT_DRAIN\<close>. For a pin in
  an input mode or with mode \<^verbatim>\<open>NONE\<close> the call is a no-op.
\<close>

theorem digitalWrite_mode_guard:
  "(digitalWrite b pin v w = Inr w' \<and> hal_log w' \<noteq> hal_log w \<longrightarrow>
      unat pin < TOTAL_PINS b \<and> pinAvailable b w pin
      \<and> (\<exists>ent. PIN_MAP_at w pin = Inr ent
           \<and> (pin_mode ent = OUTPUT \<or> pin_mode ent = AF_OUTPUT_PUSHPULL
                \<or> pin_mode ent = AF_OUTPUT_DRAIN)))
   \<and> (PIN_MAP_at w pin = Inr ent
      \<and> (pin_mode ent = INPUT \<or> pin_mode ent = INPUT_PULLUP \<or> pin_mode ent = INPUT_PULLDOWN
           \<or> pin_mode ent = AN_INPUT \<or> pin_mode ent = NONE) \<longrightarrow>
      digitalWrite b pin v w = Inr w)"
proof (intro conjI impI)
  assume a: "digitalWrite b pin v w = Inr w' \<and> hal_log w' \<noteq> hal_log w"
  then show "unat pin < TOTAL_PINS b"
    by (auto simp: digitalWrite_def split: if_splits)
  from a show "pinAvailable b w pin"
    by (auto simp: digitalWrite_def split: if_splits sum.splits)
  from a show "\<exists>ent. PIN_MAP_at w pin = Inr ent
           \<and> (pin_mode ent = OUTPUT \<or> pin_mode ent = AF_OUTPUT_PUSHPULL
                \<or> pin_mode ent = AF_OUTPUT_DRAIN)"
    by (cases "PIN_MAP_at w pin")
      (auto simp: digitalWrite_def split: if_splits intro: PinMode.exhaust)
next
  assume "PIN_MAP_at w pin = Inr ent
      \<and> (pin_mode ent = INPUT \<or> pin_mode ent = INPUT_PULLUP \<or> pin_mode ent = INPUT_PULLDOWN
           \<or> pin_mode ent = AN_INPUT \<or> pin_mode ent = NONE)"
  then show "digitalWrite b pin v w = Inr w"
    by (auto simp: digitalWrite_def)
qed

theorem digitalWrite_mode_guard_witness:
  "digitalWrite core_board 7 1 (core_hw False False False)
     = Inr (HAL_GPIO_Write 7 1 (core_hw False False False))
   \<and> hal_log (HAL_GPIO_Write 7 1 (core_hw False False False)) \<noteq> hal_log (core_hw False False False)
   \<and> PIN_MAP_at (core_hw False False False) 7 = Inr (core_entry 7)
   \<and> pin_mode (core_entry 7) = OUTPUT
   \<and> pinAvailable core_board (core_hw False False False) 7
   \<and> PIN_MAP_at (core_hw False False False) 2 = Inr (core_entry 2)
   \<and> pin_mode (core_entry 2) = INPUT
   \<and> digitalWrite core_board 2 1 (core_hw False False False) = Inr (core_hw False False False)"
proof -
  have h1: "digitalWrite core_board 7 1 (core_hw False False False)
     = Inr (HAL_GPIO_Write 7 1 (core_hw False False False))"
    by (simp add: core_simps digitalWrite_def)
  have h2: "hal_log (HAL_GPIO_Write 7 1 (core_hw False False False)) \<noteq> hal_log (core_hw False False False)"
    by (simp add: HAL_GPIO_Write_def)
  have h3: "PIN_MAP_at (core_hw False False False) 2 = Inr (core_entry 2)"
    by (simp add: core_hw_def PIN_MAP_at_def core_entry_def)
  have h4: "pin_mode (core_entry 2) = INPUT"
    by (simp add: core_entry_def)
  have h5: "PIN_MAP_at (core_hw False False False) 7 = Inr (core_entry 7)"
    by (simp add: core_hw_def PIN_MAP_at_def core_entry_def)
  have h6: "pin_mode (core_entry 7) = OUTPUT"
    by (simp add: core_entry_def)
  show ?thesis
    using h1 h2 h3 h4 h5 h6
      digitalWrite_mode_guard [of core_board 7 1 "core_hw False False False"
        "HAL_GPIO_Write 7 1 (core_hw False False False)" "core_entry 7"]
      digitalWrite_mode_guard [of core_board 2 1 "core_hw False False False"
        "core_hw False False False" "core_entry 2"]
    by simp
qed

text \<open>
  Claim C9. On a board table with one entry per pin, \<^verbatim>\<open>digitalWrite\<close>,
  \<^verbatim>\<open>digitalRead\<close>, \<^verbatim>\<open>analogRead\<close> and \<^verbatim>\<open>analogWrite\<close> return normally for every pin
  argument: the table is never indexed out of bounds, because the range test comes
  before every access.
\<close>

theorem board_table_in_bounds:
  assumes "table_ok b w"
  shows "(\<exists>w'. digitalWrite b pin v w = Inr w') \<and> (\<exists>r. digitalRead b pin w = Inr r)
         \<and> (\<exists>r. analogRead b pin w = Inr r) \<and> (\<exists>w'. analogWrite b pin v w = Inr w')"
proof (intro conjI)
  show "\<exists>w'. digitalWrite b pin v w = Inr w'"
    using assms by (cases "TOTAL_PINS b \<le> unat pin") (simp_all add: digitalWrite_def PIN_MAP_at_in_range)
  show "\<exists>r. digitalRead b pin w = Inr r"
    using assms by (cases "TOTAL_PINS b \<le> unat pin") (simp_all add: digitalRead_def PIN_MAP_at_in_range)
  show "\<exists>r. analogRead b pin w = Inr r"
    using assms by (cases "TOTAL_PINS b \<le> unat (analog_pin b pin)")
      (simp_all add: analogRead_def Let_def PIN_MAP_at_in_range)
  show "\<exists>w'. analogWrite b pin v w = Inr w'"
    using assms by (cases "TOTAL_PINS b \<le> unat pin") (simp_all add: analogWrite_def PIN_MAP_at_in_range)
qed

theorem board_table_in_bounds_witness:
  "table_ok core_board (core_hw True True True)
   \<and> (\<exists>w'. digitalWrite core_board 65535 1 (core_hw True True True) = Inr w')
   \<and> (\<exists>r. digitalRead core_board 65535 (core_hw True True True) = Inr r)
   \<and> (\<exists>r. analogRead core_board 65535 (core_hw True True True) = Inr r)
   \<and> (\<exists>w'. analogWrite core_board 65535 1 (core_hw True True True) = Inr w')"
proof -
  have h: "table_ok core_board (core_hw True True True)"
    by (simp add: core_simps)
  show ?thesis
    using h board_table_in_bounds [OF h, of 65535 1] by simp
qed

text \<open>
  Claim C1, as stated, for \<^verbatim>\<open>analogRead\<close>: with I2C enabled, pin 0 is SDA and claimed
  by the bus, yet \<^verbatim>\<open>analogRead(0)\<close> is the short form of analog pin 10, which is
  available: the HAL's ADC read is invoked on pin 10 and its sample is returned.
\<close>

theorem arbitration_argument_pin_counterexample:
  "table_ok core_board (core_hw False True False)
   \<and> bus_claims core_board (core_hw False True False) 0
   \<and> analogRead core_board 0 (core_hw False True False)
       = Inr (1234, (core_hw False True False)\<lparr>hal_log := [ADC_Read 10]\<rparr>)"
  by (simp add: core_simps analogRead_def analog_pin_def HAL_ADC_Read_def)

text \<open>
  Claim C1, amended. If an enabled bus peripheral claims the pin, \<^verbatim>\<open>pinMode\<close>,
  \<^verbatim>\<open>digitalWrite\<close>, \<^verbatim>\<open>digitalRead\<close> and \<^verbatim>\<open>analogWrite\<close> do not invoke the HAL: the
  state is unchanged and \<^verbatim>\<open>digitalRead\<close> returns 0. For \<^verbatim>\<open>analogRead\<close> the same holds
  when the bus claims the pin index after the short-form remapping.
\<close>

theorem arbitration:
  "(table_ok b w \<and> bus_claims b w pin \<longrightarrow>
      pinMode b pin m w = w \<and> digitalWrite b pin v w = Inr w
      \<and> digitalRead b pin w = Inr (0, w) \<and> analogWrite b pin v w = Inr w)
   \<and> (bus_claims b w (analog_pin b apin) \<longrightarrow> analogRead b apin w = Inr (0, w))"
proof (intro conjI impI)
  assume a: "table_ok b w \<and> bus_claims b w pin"
  then have na: "\<not> pinAvailable b w pin" and t: "table_ok b w"
    by (simp_all add: pinAvailable_iff)
  show "pinMode b pin m w = w" using na by (simp add: pinMode_def)
  show "digitalWrite b pin v w = Inr w"
    using t na by (cases "TOTAL_PINS b \<le> unat pin") (simp_all add: digitalWrite_def PIN_MAP_at_in_range)
  show "digitalRead b pin w = Inr (0, w)"
    using t na by (cases "TOTAL_PINS b \<le> unat pin") (simp_all add: digitalRead_def PIN_MAP_at_in_range LOW_def)
  show "analogWrite b pin v w = Inr w"
    using t na by (cases "TOTAL_PINS b \<le> unat pin") (simp_all add: analogWrite_def PIN_MAP_at_in_range)
next
  assume "bus_claims b w (analog_pin b apin)"
  then show "analogRead b apin w = Inr (0, w)"
    by (simp add: analogRead_def Let_def pinAvailable_iff LOW_def)
qed

theorem arbitration_witness:
  "table_ok core_board (core_hw True False False)
   \<and> bus_claims core_board (core_hw True False False) 13
   \<and> bus_claims core_board (core_hw True False False) (analog_pin core_board 3)
   \<and> pinMode core_board 13 OUTPUT (core_hw True False False) = core_hw True False False
   \<and> digitalWrite core_board 13 1 (core_hw True False False) = Inr (core_hw True False False)
   \<and> digitalRead core_board 13 (core_hw True False False) = Inr (0, core_hw True False False)
   \<and> analogWrite core_board 13 1 (core_hw True False False) = Inr (core_hw True False False)
   \<and> analogRead core_board 3 (core_hw True False False) = Inr (0, core_hw True False False)"
proof -
  have h1: "table_ok core_board (core_hw True False False)"
    by (simp add: core_simps)
  have h2: "bus_claims core_board (core_hw True False False) 13"
    by (simp add: core_simps)
  have h3: "bus_claims core_board (core_hw True False False) (analog_pin core_board 3)"
    by (simp add: core_simps analog_pin_def)
  show ?thesis
    using h1 h2 h3
      arbitration [of core_board "core_hw True False False" 13 OUTPUT 1 3]
    by simp
qed

section \<open>Properties of the delay\<close>

lemma wlan_service_frame:
  "wlan_service n w = Some w' \<Longrightarrow>
     tick_src w' = tick_src w \<and> tick_reads w' = tick_reads w \<and> wdt_kicks w' = wdt_kicks w
     \<and> flash_update_src w' = flash_update_src w
     \<and> SPARK_WLAN_SETUP w' = SPARK_WLAN_SETUP w \<and> SPARK_WLAN_SLEEP w' = SPARK_WLAN_SLEEP w"
proof (induction n arbitrary: w)
  case 0
  then show ?case by simp
next
  case (Suc n)
  show ?case
  proof (cases "SPARK_FLASH_UPDATE (SPARK_WLAN_Loop w)")
    case True
    with Suc.prems have "wlan_service n (SPARK_WLAN_Loop w) = Some w'" by simp
    from Suc.IH [OF this] show ?thesis by (simp add: SPARK_WLAN_Loop_def)
  next
    case False
    with Suc.prems show ?thesis by (auto simp: SPARK_WLAN_Loop_def)
  qed
qed

lemma wlan_service_no_update:
  "\<forall>k. \<not> flash_update_src w k \<Longrightarrow> wlan_service (Suc n) w = Some (SPARK_WLAN_Loop w)"
  by (simp add: SPARK_FLASH_UPDATE_def SPARK_WLAN_Loop_def)

lemma after_poll_simps:
  "tick_src (after_poll w) = tick_src w" "tick_reads (after_poll w) = Suc (tick_reads w)"
  "wdt_kicks (after_poll w) = Suc (wdt_kicks w)" "wlan_loops (after_poll w) = wlan_loops w"
  "flash_update_src (after_poll w) = flash_update_src w"
  by (simp_all add: after_poll_def)

lemma delay_loop_step:
  "delay_loop cfg (Suc n) ms start sle w =
     (if ms \<le> elapsed_time start (tick_src w (tick_reads w)) then Some (after_poll w)
      else if SPARK_WLAN_ENABLE cfg \<and> SPARK_WLAN_SETUP w \<and> \<not> SPARK_WLAN_SLEEP w
              \<and> (sle \<le> elapsed_time start (tick_src w (tick_reads w))
                  \<or> SPARK_LOOP_DELAY_MILLIS cfg \<le> spark_loop_total_millis w)
      then (case wlan_service n (after_poll w) of
              None \<Rightarrow> None
            | Some w3 \<Rightarrow>
                delay_loop cfg n ms start
                  (elapsed_time start (tick_src w (tick_reads w)) + SPARK_LOOP_DELAY_MILLIS cfg) w3)
      else delay_loop cfg n ms start sle (after_poll w))"
  by (simp add: GetSystem1MsTick_def KICK_WDT_def elapsed_time_def after_poll_def Let_def
      split: option.split)

lemma delay_loop_exit:
  "delay_loop cfg fuel ms start sle w = Some w' \<Longrightarrow>
     tick_src w' = tick_src w
     \<and> (\<exists>n. tick_reads w' = tick_reads w + n + 1 \<and> wdt_kicks w' = wdt_kicks w + n + 1
          \<and> ms \<le> elapsed_time start (tick_src w (tick_reads w + n))
          \<and> (\<forall>k<n. \<not> ms \<le> elapsed_time start (tick_src w (tick_reads w + k))))"
proof (induction fuel arbitrary: sle w)
  case 0
  then show ?case by simp
next
  case (Suc fuel)
  let ?e = "elapsed_time start (tick_src w (tick_reads w))"
  show ?case
  proof (cases "ms \<le> ?e")
    case True
    with Suc.prems have "w' = after_poll w"
      by (simp add: delay_loop_step del: delay_loop.simps)
    with True show ?thesis
      by (auto simp: after_poll_simps intro!: exI [of _ 0])
  next
    case False
    have "\<exists>sle' w3. delay_loop cfg fuel ms start sle' w3 = Some w' \<and> tick_src w3 = tick_src w
        \<and> tick_reads w3 = Suc (tick_reads w) \<and> wdt_kicks w3 = Suc (wdt_kicks w)"
    proof (cases "SPARK_WLAN_ENABLE cfg \<and> SPARK_WLAN_SETUP w \<and> \<not> SPARK_WLAN_SLEEP w
              \<and> (sle \<le> ?e \<or> SPARK_LOOP_DELAY_MILLIS cfg \<le> spark_loop_total_millis w)")
      case True
      with False Suc.prems obtain w3 where s: "wlan_service fuel (after_poll w) = Some w3"
        and d: "delay_loop cfg fuel ms start (?e + SPARK_LOOP_DELAY_MILLIS cfg) w3 = Some w'"
        by (auto simp: delay_loop_step simp del: delay_loop.simps split: option.splits)
      from wlan_service_frame [OF s] d show ?thesis
        by (intro exI [of _ "?e + SPARK_LOOP_DELAY_MILLIS cfg"] exI [of _ w3])
          (simp add: after_poll_simps)
    next
      case no: False
      with False Suc.prems have "delay_loop cfg fuel ms start sle (after_poll w) = Some w'"
        by (auto simp: delay_loop_step simp del: delay_loop.simps)
      then show ?thesis
        by (intro exI [of _ sle] exI [of _ "after_poll w"]) (simp add: after_poll_simps)
    qed
    then obtain sle' w3 where d: "delay_loop cfg fuel ms start sle' w3 = Some w'"
      and f: "tick_src w3 = tick_src w" "tick_reads w3 = Suc (tick_reads w)"
        "wdt_kicks w3 = Suc (wdt_kicks w)" by blast
    from Suc.IH [OF d] f obtain n where
      n: "tick_src w' = tick_src w" "tick_reads w' = Suc (tick_reads w) + n + 1"
        "wdt_kicks w' = Suc (wdt_kicks w) + n + 1"
        "ms \<le> elapsed_time start (tick_src w (Suc (tick_reads w) + n))"
        "\<forall>k<n. \<not> ms \<le> elapsed_time start (tick_src w (Suc (tick_reads w) + k))"
      by auto
    have "\<forall>k<Suc n. \<not> ms \<le> elapsed_time start (tick_src w (tick_reads w + k))"
    proof (intro allI impI)
      fix k assume "k < Suc n"
      show "\<not> ms \<le> elapsed_time start (tick_src w (tick_reads w + k))"
      proof (cases k)
        case 0
        with False show ?thesis by simp
      next
        case (Suc j)
        with \<open>k < Suc n\<close> n(5) show ?thesis by simp
      qed
    qed
    with n show ?thesis
      by (intro conjI exI [of _ "Suc n"]) simp_all
  qed
qed

lemma delay_loop_returns:
  "ms \<le> elapsed_time start (tick_src w (tick_reads w + n)) \<Longrightarrow>
   \<forall>k. \<not> flash_update_src w k \<Longrightarrow> n < fuel \<Longrightarrow>
   \<exists>w'. delay_loop cfg fuel ms start sle w = Some w'"
proof (induction fuel arbitrary: n sle w)
  case 0
  then show ?case by simp
next
  case (Suc fuel)
  let ?e = "elapsed_time start (tick_src w (tick_reads w))"
  show ?case
  proof (cases "ms \<le> ?e")
    case True
    then show ?thesis by (simp add: delay_loop_step del: delay_loop.simps)
  next
    case False
    with Suc.prems(1) have "n \<noteq> 0" by (cases n) auto
    then obtain j where j: "n = Suc j" by (cases n) auto
    with Suc.prems(3) have jf: "j < fuel" by simp
    then obtain f' where f': "fuel = Suc f'" by (cases fuel) auto
    have nu: "\<forall>k. \<not> flash_update_src (after_poll w) k"
      using Suc.prems(2) by (simp add: after_poll_simps)
    have srv: "wlan_service fuel (after_poll w) = Some (SPARK_WLAN_Loop (after_poll w))"
      unfolding f' by (rule wlan_service_no_update [OF nu])
    have a: "ms \<le> elapsed_time start (tick_src (after_poll w) (tick_reads (after_poll w) + j))"
      using Suc.prems(1) j by (simp add: after_poll_simps)
    have b: "ms \<le> elapsed_time start (tick_src (SPARK_WLAN_Loop (after_poll w))
        (tick_reads (SPARK_WLAN_Loop (after_poll w)) + j))"
      using Suc.prems(1) j by (simp add: after_poll_simps SPARK_WLAN_Loop_def)
    have nu': "\<forall>k. \<not> flash_update_src (SPARK_WLAN_Loop (after_poll w)) k"
      using Suc.prems(2) by (simp add: after_poll_simps SPARK_WLAN_Loop_def)
    from Suc.IH [OF a nu jf] Suc.IH [OF b nu' jf] False srv show ?thesis
      by (simp add: delay_loop_step del: delay_loop.simps)
  qed
qed

lemma delay_entry_simps:
  "tick_src (delay_entry cfg ms w) = tick_src w"
  "tick_reads (delay_entry cfg ms w) = Suc (tick_reads w)"
  "wdt_kicks (delay_entry cfg ms w) = wdt_kicks w"
  "wlan_loops (delay_entry cfg ms w) = wlan_loops w"
  "flash_update_src (delay_entry cfg ms w) = flash_update_src w"
  by (simp_all add: delay_entry_def)

lemma delay_unfold:
  "delay cfg fuel ms w =
     delay_loop cfg fuel ms (tick_src w (tick_reads w)) (SPARK_LOOP_DELAY_MILLIS cfg)
       (delay_entry cfg ms w)"
  by (simp add: delay_def delay_entry_def GetSystem1MsTick_def Let_def)

lemma delay_exit:
  assumes "delay cfg fuel ms w = Some w'"
  shows "\<exists>n. tick_reads w' = tick_reads w + n + 2 \<and> wdt_kicks w' = wdt_kicks w + n + 1
          \<and> ms \<le> elapsed_time (tick_src w (tick_reads w)) (tick_src w (tick_reads w + n + 1))
          \<and> (\<forall>k<n. \<not> ms \<le> elapsed_time (tick_src w (tick_reads w))
                                   (tick_src w (tick_reads w + k + 1)))"
  using delay_loop_exit [OF assms [unfolded delay_unfold]]
  by (simp add: delay_entry_simps)

lemma delay_returns:
  assumes "ms \<le> elapsed_time (tick_src w (tick_reads w)) (tick_src w (tick_reads w + n + 1))"
    and "\<forall>k. \<not> flash_update_src w k" and "n < fuel"
  shows "\<exists>w'. delay cfg fuel ms w = Some w'"
  unfolding delay_unfold
  by (rule delay_loop_returns [where n = n]) (use assms in \<open>simp_all add: delay_entry_simps\<close>)

lemmas delay_eval = delay_def delay_loop_step elapsed_time_def after_poll_def
  GetSystem1MsTick_def SPARK_WLAN_Loop_def SPARK_FLASH_UPDATE_def Let_def
  wlan_build_def plain_build_def sys_at_def wrapping_ticks_def jumping_ticks_def
  word_le_nat_alt

lemma steady_elapsed_small:
  assumes "j < 2 ^ 31"
  shows "elapsed_time (steady_ticks 0) (steady_ticks j) = of_nat j"
proof -
  have "sint (of_nat j :: u32) = int j"
    using assms by (simp add: signed_of_nat signed_take_bit_int_eq_self)
  then show ?thesis
    by (simp add: elapsed_time_def steady_ticks_def)
qed

lemma steady_no_exit:
  assumes "j < 2 ^ 31"
  shows "\<not> (0xD0000000 :: u32) \<le> elapsed_time (steady_ticks 0) (steady_ticks j)"
proof -
  have "unat (of_nat j :: u32) = j"
    using assms by (simp add: unat_of_nat take_bit_nat_eq_self)
  with assms show ?thesis
    by (simp add: steady_elapsed_small word_le_nat_alt)
qed

lemma steady_exit:
  "(0xD0000000 :: u32) \<le> elapsed_time (steady_ticks 0) (steady_ticks (2 ^ 31))"
  by (simp add: elapsed_time_def steady_ticks_def word_le_nat_alt)

lemma neg_sint_ge:
  assumes "sint (x :: u32) < 0"
  shows "(0x80000000 :: u32) \<le> x"
proof (rule ccontr)
  assume "\<not> 0x80000000 \<le> x"
  then have lt: "uint x < 2 ^ 31"
    by (simp add: word_le_def)
  have "sint x = signed_take_bit 31 (uint x)"
    by (simp add: sint_uint)
  also have "\<dots> = uint x"
  proof (rule signed_take_bit_int_eq_self)
    have "- (2 ^ 31) \<le> (0::int)" by simp
    also have "0 \<le> uint x" by simp
    finally show "- (2 ^ 31) \<le> uint x" .
    show "uint x < 2 ^ 31" by (rule lt)
  qed
  finally show False using assms by simp
qed

text \<open>
  Claim C3. \<^verbatim>\<open>delay\<close> records the start tick at entry and, in each iteration, takes
  the elapsed time to be the current tick minus the start tick, or their sum where the
  difference, read signed, is negative. It returns exactly when that value reaches
  \<^verbatim>\<open>ms\<close> (compared unsigned, as C compares a \<^verbatim>\<open>long\<close> with an \<^verbatim>\<open>unsigned long\<close>): a
  call that returns has read the counter up to the first read whose elapsed time is
  at least \<^verbatim>\<open>ms\<close>, and if some read has such an elapsed time, no firmware update holds
  the service loop and the fuel covers the reads, the call returns.
\<close>

theorem delay_exit_rule:
  "(delay cfg fuel ms w = Some w' \<longrightarrow>
      (\<exists>n. tick_reads w' = tick_reads w + n + 2
          \<and> ms \<le> elapsed_time (tick_src w (tick_reads w)) (tick_src w (tick_reads w + n + 1))
          \<and> (\<forall>k<n. \<not> ms \<le> elapsed_time (tick_src w (tick_reads w))
                                   (tick_src w (tick_reads w + k + 1)))))
   \<and> (ms \<le> elapsed_time (tick_src w (tick_reads w)) (tick_src w (tick_reads w + m + 1))
        \<and> (\<forall>k. \<not> flash_update_src w k) \<and> m < fuel \<longrightarrow>
      (\<exists>w''. delay cfg fuel ms w = Some w''))"
proof (intro conjI impI)
  assume "delay cfg fuel ms w = Some w'"
  from delay_exit [OF this]
  show "\<exists>n. tick_reads w' = tick_reads w + n + 2
          \<and> ms \<le> elapsed_time (tick_src w (tick_reads w)) (tick_src w (tick_reads w + n + 1))
          \<and> (\<forall>k<n. \<not> ms \<le> elapsed_time (tick_src w (tick_reads w))
                                   (tick_src w (tick_reads w + k + 1)))"
    by blast
next
  assume "ms \<le> elapsed_time (tick_src w (tick_reads w)) (tick_src w (tick_reads w + m + 1))
        \<and> (\<forall>k. \<not> flash_update_src w k) \<and> m < fuel"
  then show "\<exists>w''. delay cfg fuel ms w = Some w''"
    using delay_returns [of ms w m fuel cfg] by blast
qed

theorem delay_exit_rule_witness:
  "delay wlan_build (Suc (Suc (Suc 0))) 3 (sys_at wrapping_ticks 0)
     = Some ((sys_at wrapping_ticks 0)
              \<lparr>tick_reads := 4, wdt_kicks := 3, spark_loop_total_millis := 3\<rparr>)
   \<and> (\<exists>n. (4 :: nat) = n + 2
          \<and> 3 \<le> elapsed_time (wrapping_ticks 0) (wrapping_ticks (n + 1))
          \<and> (\<forall>k<n. \<not> 3 \<le> elapsed_time (wrapping_ticks 0) (wrapping_ticks (k + 1))))
   \<and> 3 \<le> elapsed_time (wrapping_ticks 0) (wrapping_ticks 3)
   \<and> (\<forall>k. \<not> flash_update_src (sys_at wrapping_ticks 0) k)
   \<and> (\<exists>w''. delay wlan_build (Suc (Suc (Suc 0))) 3 (sys_at wrapping_ticks 0) = Some w'')"
proof -
  let ?w = "sys_at wrapping_ticks 0"
  let ?w' = "?w\<lparr>tick_reads := 4, wdt_kicks := 3, spark_loop_total_millis := 3\<rparr>"
  have h1: "delay wlan_build (Suc (Suc (Suc 0))) 3 ?w = Some ?w'"
    by (simp add: delay_eval del: delay_loop.simps)
  have h2: "3 \<le> elapsed_time (tick_src ?w (tick_reads ?w)) (tick_src ?w (tick_reads ?w + 2 + 1))"
    by (simp add: delay_eval)
  have h3: "\<forall>k. \<not> flash_update_src ?w k"
    by (simp add: sys_at_def)
  have h4: "(2 :: nat) < Suc (Suc (Suc 0))"
    by simp
  have s: "tick_reads ?w = 0" "tick_src ?w = wrapping_ticks" "tick_reads ?w' = 4"
    by (simp_all add: sys_at_def)
  show ?thesis
    using h1 h2 h3 h4
      delay_exit_rule [of wlan_build "Suc (Suc (Suc 0))" 3 ?w ?w' 2]
    unfolding s by simp
qed

text \<open>
  Claim C8, as stated: with the network loop compiled in, set up and awake, and the
  accumulator at the service period, so that a service call is due, \<^verbatim>\<open>delay(0)\<close>
  returns after one watchdog kick and has not called the service routine.
\<close>

theorem delay_zero_service_due_counterexample:
  "SPARK_WLAN_ENABLE wlan_build
   \<and> SPARK_WLAN_SETUP (sys_at wrapping_ticks 1000)
   \<and> \<not> SPARK_WLAN_SLEEP (sys_at wrapping_ticks 1000)
   \<and> SPARK_LOOP_DELAY_MILLIS wlan_build \<le> spark_loop_total_millis (sys_at wrapping_ticks 1000)
   \<and> delay wlan_build (Suc (Suc (Suc 0))) 0 (sys_at wrapping_ticks 1000)
       = Some ((sys_at wrapping_ticks 1000)\<lparr>tick_reads := 2, wdt_kicks := 1\<rparr>)
   \<and> wlan_loops ((sys_at wrapping_ticks 1000)\<lparr>tick_reads := 2, wdt_kicks := 1\<rparr>)
       = wlan_loops (sys_at wrapping_ticks 1000)"
  by (simp add: delay_eval del: delay_loop.simps)

text \<open>
  Claim C8, amended. \<^verbatim>\<open>delay(0)\<close> returns in its first iteration: it kicks the
  watchdog exactly once, reads the counter twice and does not call the network service
  routine, whatever the accumulator holds, because the exit test comes before the
  service branch.
\<close>

theorem delay_zero:
  "\<exists>w'. delay cfg (Suc n) 0 w = Some w' \<and> wdt_kicks w' = Suc (wdt_kicks w)
        \<and> wlan_loops w' = wlan_loops w \<and> tick_reads w' = tick_reads w + 2"
  by (simp add: delay_unfold delay_loop_step delay_entry_simps after_poll_simps
      del: delay_loop.simps)

text \<open>A delay whose exit test fails first does service the network when a call is due.\<close>

lemma delay_services_when_due:
  "delay wlan_build (Suc (Suc (Suc 0))) 3 (sys_at wrapping_ticks 998)
     = Some ((sys_at wrapping_ticks 998)
              \<lparr>tick_reads := 4, wdt_kicks := 3, spark_loop_total_millis := 0, wlan_loops := 1\<rparr>)"
  by (simp add: delay_eval del: delay_loop.simps)

text \<open>
  Claim C2, where the code falls short. The counter starts at \<open>0x30000000\<close> and
  advances by one tick per read; \<^verbatim>\<open>delay(0xD0000000)\<close> returns at the read that shows
  \<open>0xB0000000\<close>, when \<open>2 ^ 31\<close> ticks have passed and not \<open>0xD0000000\<close>: the
  difference is negative as a \<^verbatim>\<open>long\<close>, and the sum of start and current tick that
  replaces it is \<open>0xE0000000\<close>.
\<close>

theorem delay_returns_early:
  "\<exists>w'. delay plain_build (2 ^ 31 + n) 0xD0000000 (sys_at steady_ticks 0) = Some w'
        \<and> tick_reads w' = 2 ^ 31 + 1
        \<and> ticks_between (steady_ticks 0) (steady_ticks (2 ^ 31)) = 0x80000000
        \<and> (0x80000000 :: u32) < 0xD0000000"
proof -
  let ?w = "sys_at steady_ticks 0"
  have tr: "tick_reads ?w = 0" "tick_src ?w = steady_ticks" "\<forall>k. \<not> flash_update_src ?w k"
    by (simp_all add: sys_at_def)
  have "\<exists>w'. delay plain_build (2 ^ 31 + n) 0xD0000000 ?w = Some w'"
  proof (rule delay_returns [where n = "2 ^ 31 - 1"])
    show "0xD0000000 \<le> elapsed_time (tick_src ?w (tick_reads ?w))
        (tick_src ?w (tick_reads ?w + (2 ^ 31 - 1) + 1))"
      using steady_exit by (simp add: tr)
    show "\<forall>k. \<not> flash_update_src ?w k" by (simp add: tr)
    show "(2 ^ 31 - 1 :: nat) < 2 ^ 31 + n" by simp
  qed
  then obtain w' where w': "delay plain_build (2 ^ 31 + n) 0xD0000000 ?w = Some w'" ..
  from delay_exit [OF w'] obtain i where
    i: "tick_reads w' = i + 2" "0xD0000000 \<le> elapsed_time (steady_ticks 0) (steady_ticks (i + 1))"
    by (auto simp: tr)
  from delay_exit [OF w'] i(1) have
    first: "\<forall>k<i. \<not> 0xD0000000 \<le> elapsed_time (steady_ticks 0) (steady_ticks (k + 1))"
    by (auto simp: tr)
  have "\<not> i + 1 < 2 ^ 31"
    using i(2) steady_no_exit [of "i + 1"] by blast
  moreover have "\<not> 2 ^ 31 - 1 < i"
    using first steady_exit by (auto dest!: spec [of _ "2 ^ 31 - 1"])
  ultimately have "i + 1 = 2 ^ 31" by simp
  with i(1) have "tick_reads w' = 2 ^ 31 + 1" by simp
  moreover have "ticks_between (steady_ticks 0) (steady_ticks (2 ^ 31)) = 0x80000000"
    by (simp add: ticks_between_def steady_ticks_def)
  moreover have "(0x80000000 :: u32) < 0xD0000000" by (simp add: word_less_nat_alt)
  ultimately show ?thesis using w' by blast
qed

text \<open>
  Up to \<open>2 ^ 31\<close> milliseconds the lower bound holds for every behaviour of the
  counter: at the return, the ticks between the start read and the last read are at
  least \<^verbatim>\<open>ms\<close>.
\<close>

lemma delay_lower_bound:
  assumes "delay cfg fuel ms w = Some w'" and "ms \<le> 0x80000000"
  shows "ms \<le> ticks_between (tick_src w (tick_reads w)) (tick_src w (tick_reads w' - 1))"
proof -
  from delay_exit [OF assms(1)] obtain n where
    n: "tick_reads w' = tick_reads w + n + 2"
    "ms \<le> elapsed_time (tick_src w (tick_reads w)) (tick_src w (tick_reads w + n + 1))"
    by blast
  let ?s = "tick_src w (tick_reads w)" and ?c = "tick_src w (tick_reads w + n + 1)"
  have "ms \<le> ?c - ?s"
  proof (cases "sint (?c - ?s) < 0")
    case True
    then have "(0x80000000 :: u32) \<le> ?c - ?s"
      by (rule neg_sint_ge)
    with assms(2) show ?thesis by simp
  next
    case False
    with n(2) show ?thesis by (simp add: elapsed_time_def)
  qed
  with n(1) show ?thesis by (simp add: ticks_between_def)
qed

section \<open>Properties of the range mapping\<close>

lemma sdiv_mult_self:
  assumes "d \<noteq> 0"
  shows "(d * e) sdiv d = (e :: int)"
proof -
  have dd: "sgn d * sgn d = 1"
    using assms by (simp add: sgn_if)
  have "(d * e) sdiv d = (sgn d * sgn d) * (sgn e * \<bar>e\<bar>)"
    using assms by (simp add: signed_divide_int_def abs_mult sgn_mult)
  also have "\<dots> = e"
    using assms by (simp add: sgn_mult_abs)
  finally show ?thesis .
qed

lemma signed_take_bit_fits: "fits_long k \<Longrightarrow> signed_take_bit 31 k = k"
  unfolding fits_long_def by (rule signed_take_bit_int_eq_self) simp_all

lemma sint_eq_0_D: "sint (a :: u32) = 0 \<Longrightarrow> a = 0"
proof -
  assume z: "sint a = 0"
  have "a = word_of_int (sint a)" by simp
  also have "\<dots> = 0" by (simp only: z word_of_int_0)
  finally show "a = 0" .
qed

lemma sint_diff_fits:
  "fits_long (sint a - sint b) \<Longrightarrow> sint (a - b :: u32) = sint a - sint b"
  by (simp add: sint_word_diff signed_take_bit_fits)

lemma sint_mult_fits:
  "fits_long (sint a * sint b) \<Longrightarrow> sint (a * b :: u32) = sint a * sint b"
  by (simp add: sint_word_mult signed_take_bit_fits)

lemma sint_add_fits:
  "fits_long (sint a + sint b) \<Longrightarrow> sint (a + b :: u32) = sint a + sint b"
  by (simp add: sint_word_add signed_take_bit_fits)

lemma sint_of_int_fits:
  "fits_long k \<Longrightarrow> sint (word_of_int k :: u32) = k"
  by (simp add: sint_sbintrunc' signed_take_bit_fits)

lemma map_long_low_end:
  assumes "fromStart \<noteq> fromEnd"
  shows "map_long fromStart fromStart fromEnd toStart toEnd = Some toStart"
  using assms by (simp add: map_long_def sdiv_long_def)

lemma map_long_high_end:
  assumes "fromStart \<noteq> fromEnd"
    and "fits_long (sint fromEnd - sint fromStart)"
    and "fits_long (sint toEnd - sint toStart)"
    and "fits_long ((sint fromEnd - sint fromStart) * (sint toEnd - sint toStart))"
  shows "map_long fromEnd fromStart fromEnd toStart toEnd = Some toEnd"
proof -
  have d: "sint (fromEnd - fromStart) = sint fromEnd - sint fromStart"
    using assms(2) by (rule sint_diff_fits)
  have e: "sint (toEnd - toStart) = sint toEnd - sint toStart"
    using assms(3) by (rule sint_diff_fits)
  have nz: "fromEnd - fromStart \<noteq> 0"
    using assms(1) by simp
  then have dnz: "sint fromEnd - sint fromStart \<noteq> 0"
    using d sint_eq_0_D [of "fromEnd - fromStart"] by auto
  have "sint ((fromEnd - fromStart) * (toEnd - toStart))
      = (sint fromEnd - sint fromStart) * (sint toEnd - sint toStart)"
    using assms(4) sint_mult_fits [of "fromEnd - fromStart" "toEnd - toStart"]
    by (simp add: d e)
  then have "sdiv_long ((fromEnd - fromStart) * (toEnd - toStart)) (fromEnd - fromStart)
      = word_of_int (sint (toEnd - toStart))"
    using dnz by (simp add: sdiv_long_def d e sdiv_mult_self)
  then show ?thesis
    using nz by (simp add: map_long_def)
qed

lemma map_long_refines:
  assumes "fromStart \<noteq> fromEnd"
    and "fits_long (sint x - sint fromStart)"
    and "fits_long (sint fromEnd - sint fromStart)"
    and "fits_long (sint toEnd - sint toStart)"
    and "fits_long ((sint x - sint fromStart) * (sint toEnd - sint toStart))"
    and "fits_long (LinearMap (sint x) (sint fromStart) (sint fromEnd) (sint toStart) (sint toEnd)
           - sint toStart)"
    and "fits_long (LinearMap (sint x) (sint fromStart) (sint fromEnd) (sint toStart) (sint toEnd))"
  shows "\<exists>r. map_long x fromStart fromEnd toStart toEnd = Some r
          \<and> sint r = LinearMap (sint x) (sint fromStart) (sint fromEnd) (sint toStart) (sint toEnd)"
proof -
  let ?q = "((sint x - sint fromStart) * (sint toEnd - sint toStart))
              sdiv (sint fromEnd - sint fromStart)"
  have nz: "fromEnd - fromStart \<noteq> 0"
    using assms(1) by simp
  have a: "sint (x - fromStart) = sint x - sint fromStart"
    using assms(2) by (rule sint_diff_fits)
  have d: "sint (fromEnd - fromStart) = sint fromEnd - sint fromStart"
    using assms(3) by (rule sint_diff_fits)
  have e: "sint (toEnd - toStart) = sint toEnd - sint toStart"
    using assms(4) by (rule sint_diff_fits)
  have p: "sint ((x - fromStart) * (toEnd - toStart))
      = (sint x - sint fromStart) * (sint toEnd - sint toStart)"
    using assms(5) sint_mult_fits [of "x - fromStart" "toEnd - toStart"] by (simp add: a e)
  have q: "sint (sdiv_long ((x - fromStart) * (toEnd - toStart)) (fromEnd - fromStart)) = ?q"
    using assms(6) by (simp add: sdiv_long_def p d sint_of_int_fits LinearMap_def)
  have "sint (sdiv_long ((x - fromStart) * (toEnd - toStart)) (fromEnd - fromStart) + toStart)
      = ?q + sint toStart"
    using assms(7) sint_add_fits [of "sdiv_long ((x - fromStart) * (toEnd - toStart)) (fromEnd - fromStart)" toStart]
    by (simp add: q LinearMap_def)
  then show ?thesis
    using nz by (simp add: map_long_def LinearMap_def)
qed

text \<open>The scenario of the specification, and a quotient that truncates toward zero.\<close>

lemma map_long_scenario: "map_long 512 0 1023 0 255 = Some 127"
  by (simp add: map_long_def sdiv_long_def signed_divide_int_def)

lemma map_long_truncates: "map_long (- 1) 0 2 0 1 = Some 0"
  by (simp add: map_long_def sdiv_long_def signed_divide_int_def)

text \<open>
  Claim C7, as stated: the input range from 0 to 65536 is not degenerate, yet the upper
  end is not mapped to the upper end of the output range from 0 to 65536: the product
  \<open>65536 * 65536\<close> wraps to 0 in a 32-bit \<^verbatim>\<open>long\<close>.
\<close>

theorem map_long_overflow_counterexample:
  "(0 :: u32) \<noteq> 65536 \<and> map_long 65536 0 65536 0 65536 = Some 0 \<and> (0 :: u32) \<noteq> 65536"
  by (simp add: map_long_def sdiv_long_def)

text \<open>
  Claim C7, amended. For a non-degenerate input range \<^verbatim>\<open>map\<close> maps the lower end of the
  input range to the lower end of the output range. Where the two differences and
  their product fit a \<^verbatim>\<open>long\<close>, it maps the upper end to the upper end. Where every
  intermediate result fits a \<^verbatim>\<open>long\<close>, its result is the formula of the specification,
  with the division truncating toward zero.
\<close>

theorem map_long_endpoints:
  "(fromStart \<noteq> fromEnd \<longrightarrow>
      map_long fromStart fromStart fromEnd toStart toEnd = Some toStart)
   \<and> (fromStart \<noteq> fromEnd
      \<and> fits_long (sint fromEnd - sint fromStart)
      \<and> fits_long (sint toEnd - sint toStart)
      \<and> fits_long ((sint fromEnd - sint fromStart) * (sint toEnd - sint toStart)) \<longrightarrow>
      map_long fromEnd fromStart fromEnd toStart toEnd = Some toEnd)
   \<and> (fromStart \<noteq> fromEnd
      \<and> fits_long (sint x - sint fromStart)
      \<and> fits_long (sint fromEnd - sint fromStart)
      \<and> fits_long (sint toEnd - sint toStart)
      \<and> fits_long ((sint x - sint fromStart) * (sint toEnd - sint toStart))
      \<and> fits_long (LinearMap (sint x) (sint fromStart) (sint fromEnd) (sint toStart) (sint toEnd)
           - sint toStart)
      \<and> fits_long (LinearMap (sint x) (sint fromStart) (sint fromEnd) (sint toStart) (sint toEnd))
      \<longrightarrow>
      (\<exists>r. map_long x fromStart fromEnd toStart toEnd = Some r
          \<and> sint r = LinearMap (sint x) (sint fromStart) (sint fromEnd) (sint toStart) (sint toEnd)))"
  using map_long_low_end [of fromStart fromEnd toStart toEnd]
    map_long_high_end [of fromStart fromEnd toEnd toStart]
    map_long_refines [of fromStart fromEnd x toEnd toStart]
  by blast

theorem map_long_endpoints_witness:
  "(0 :: u32) \<noteq> 1023
   \<and> fits_long (sint (1023 :: u32) - sint (0 :: u32))
   \<and> fits_long (sint (255 :: u32) - sint (0 :: u32))
   \<and> fits_long ((sint (1023 :: u32) - sint (0 :: u32)) * (sint (255 :: u32) - sint (0 :: u32)))
   \<and> fits_long (sint (512 :: u32) - sint (0 :: u32))
   \<and> fits_long ((sint (512 :: u32) - sint (0 :: u32)) * (sint (255 :: u32) - sint (0 :: u32)))
   \<and> LinearMap (sint (512 :: u32)) (sint (0 :: u32)) (sint (1023 :: u32)) (sint (0 :: u32))
        (sint (255 :: u32)) = 127
   \<and> map_long 0 0 1023 0 255 = Some 0
   \<and> map_long 1023 0 1023 0 255 = Some 255
   \<and> (\<exists>r. map_long 512 0 1023 0 255 = Some r \<and> sint r = 127)"
proof -
  have h0: "(0 :: u32) \<noteq> 1023"
    by simp
  have h1: "fits_long (sint (1023 :: u32) - sint (0 :: u32))"
    "fits_long (sint (255 :: u32) - sint (0 :: u32))"
    "fits_long ((sint (1023 :: u32) - sint (0 :: u32)) * (sint (255 :: u32) - sint (0 :: u32)))"
    "fits_long (sint (512 :: u32) - sint (0 :: u32))"
    "fits_long ((sint (512 :: u32) - sint (0 :: u32)) * (sint (255 :: u32) - sint (0 :: u32)))"
    by (simp_all add: fits_long_def)
  have h2: "LinearMap (sint (512 :: u32)) (sint (0 :: u32)) (sint (1023 :: u32)) (sint (0 :: u32))
        (sint (255 :: u32)) = 127"
    by (simp add: LinearMap_def signed_divide_int_def)
  have h3: "fits_long (127 - sint (0 :: u32))" "fits_long 127"
    by (simp_all add: fits_long_def)
  show ?thesis
    using h0 h1 h2 h3 map_long_endpoints [of 0 1023 0 255 512]
    by simp
qed

section \<open>Properties of the shift helpers\<close>

lemma unat_ucast_pin: "unat (ucast (p :: u8) :: pin_t) = unat p"
proof -
  have "unat p < 2 ^ 8"
    using unsigned_less [of p] by simp
  then have "unat p < 2 ^ 16"
    by simp
  then show ?thesis
    by (simp add: unsigned_ucast_eq take_bit_nat_eq_self)
qed

lemma ucast_pin_inj: "(ucast (p :: u8) :: pin_t) = ucast q \<Longrightarrow> p = q"
proof -
  assume "(ucast p :: pin_t) = ucast q"
  then have "unat (ucast p :: pin_t) = unat (ucast q :: pin_t)" by simp
  then show "p = q" by (simp add: unat_ucast_pin word_unat_eq_iff)
qed

lemma driven_levels_append:
  "driven_levels p (xs @ ys) = driven_levels p xs @ driven_levels p ys"
  by (induction p xs rule: driven_levels.induct) simp_all

lemma samples_taken_append:
  "samples_taken p (xs @ ys) = samples_taken p xs + samples_taken p ys"
  by (induction p xs rule: samples_taken.induct) simp_all

lemma not_not_bit:
  assumes "i < 8"
  shows "not_not (ucast (v :: u8) AND push_bit i 1) = of_bool (bit v i)"
proof -
  have "bit (ucast v :: u32) i \<longleftrightarrow> (ucast v :: u32) AND push_bit i 1 \<noteq> 0"
    by (rule bit_iff_and_push_bit_not_eq_0)
  moreover have "bit (ucast v :: u32) i \<longleftrightarrow> bit v i"
    using assms by (simp add: bit_ucast_iff)
  ultimately show ?thesis
    unfolding not_not_def by auto
qed

lemma or_sample:
  "i < 8 \<Longrightarrow> (ucast ((ucast (val :: u8) :: u32) OR push_bit i (of_bool c)) :: u8)
      = val OR push_bit i (of_bool c)"
  by (rule bit_word_eqI) (auto simp: bit_simps)

lemma pinAvailable_log [simp]:
  "pinAvailable b (w\<lparr>hal_log := l\<rparr>) p = pinAvailable b w p"
  by (simp add: pinAvailable_def)

lemma log_frame [simp]:
  "table_ok b (w\<lparr>hal_log := l\<rparr>) = table_ok b w"
  "writable b (w\<lparr>hal_log := l\<rparr>) p = writable b w p"
  "readable b (w\<lparr>hal_log := l\<rparr>) p = readable b w p"
  by (simp_all add: table_ok_def writable_def readable_def)

lemma digitalWrite_writable:
  "table_ok b w \<Longrightarrow> writable b w pin \<Longrightarrow>
     digitalWrite b pin v w = Inr (w\<lparr>hal_log := hal_log w @ [GPIO_Write pin v]\<rparr>)"
  by (auto simp: digitalWrite_def writable_def PIN_MAP_at_def table_ok_def HAL_GPIO_Write_def)

lemma digitalWrite_cases:
  "table_ok b w \<Longrightarrow>
     digitalWrite b pin v w = Inr w
     \<or> digitalWrite b pin v w = Inr (w\<lparr>hal_log := hal_log w @ [GPIO_Write pin v]\<rparr>)"
  by (cases "TOTAL_PINS b \<le> unat pin")
    (simp_all add: digitalWrite_def PIN_MAP_at_def table_ok_def HAL_GPIO_Write_def)

lemma digitalWrite_log:
  assumes "table_ok b w"
  shows "\<exists>l. digitalWrite b pin v w = Inr (w\<lparr>hal_log := hal_log w @ l\<rparr>)
         \<and> (l = [] \<or> l = [GPIO_Write pin v])"
proof -
  from digitalWrite_cases [OF assms, of pin v] show ?thesis
  proof
    assume "digitalWrite b pin v w = Inr w"
    then have "digitalWrite b pin v w = Inr (w\<lparr>hal_log := hal_log w @ []\<rparr>)" by simp
    then show ?thesis by blast
  next
    assume "digitalWrite b pin v w = Inr (w\<lparr>hal_log := hal_log w @ [GPIO_Write pin v]\<rparr>)"
    then show ?thesis by blast
  qed
qed

lemma digitalRead_readable:
  "table_ok b w \<Longrightarrow> readable b w pin \<Longrightarrow>
     digitalRead b pin w
       = Inr (gpio_in w (hal_log w) pin, w\<lparr>hal_log := hal_log w @ [GPIO_Read pin]\<rparr>)"
  by (auto simp: digitalRead_def readable_def PIN_MAP_at_def table_ok_def HAL_GPIO_Read_def)

lemma bit_or_sample:
  "n < 8 \<Longrightarrow> bit ((val :: u8) OR push_bit p (of_bool x)) n \<longleftrightarrow> bit val n \<or> (n = p \<and> x)"
  by (auto simp: bit_simps)

lemma bit_assemble:
  "n < 8 \<Longrightarrow>
     bit (assemble bitOrder i val xs) n
       \<longleftrightarrow> bit val n \<or> (\<exists>j<length xs. bit_pos bitOrder (i + j) = n \<and> xs ! j)"
proof (induction xs arbitrary: i val)
  case Nil
  then show ?case by simp
next
  case (Cons x xs)
  have "(\<exists>j<length (x # xs). bit_pos bitOrder (i + j) = n \<and> (x # xs) ! j)
      \<longleftrightarrow> (bit_pos bitOrder i = n \<and> x)
          \<or> (\<exists>j<length xs. bit_pos bitOrder (Suc i + j) = n \<and> xs ! j)"
    by (auto simp: less_Suc_eq_0_disj)
  with Cons.IH [OF Cons.prems, of "Suc i" "val OR push_bit (bit_pos bitOrder i) (of_bool x)"]
    bit_or_sample [OF Cons.prems, of val "bit_pos bitOrder i" x]
  show ?case by auto
qed

lemma assemble_bits:
  "assemble bitOrder 0 0 (map (\<lambda>k. bit v (bit_pos bitOrder k)) [0..<8]) = v"
proof (rule bit_word_eqI)
  fix n assume "n < LENGTH(8)"
  then have n: "n < 8" by simp
  let ?xs = "map (\<lambda>k. bit v (bit_pos bitOrder k)) [0..<8]"
  have nth: "?xs ! j = bit v (bit_pos bitOrder j)" if "j < 8" for j
    using that by simp
  have "(\<exists>j<8. bit_pos bitOrder j = n \<and> bit v (bit_pos bitOrder j)) \<longleftrightarrow> bit v n"
  proof
    assume "\<exists>j<8. bit_pos bitOrder j = n \<and> bit v (bit_pos bitOrder j)"
    then show "bit v n" by auto
  next
    assume b: "bit v n"
    show "\<exists>j<8. bit_pos bitOrder j = n \<and> bit v (bit_pos bitOrder j)"
    proof (cases "bitOrder = LSBFIRST")
      case True
      with b n show ?thesis by (intro exI [of _ n]) (simp add: bit_pos_def)
    next
      case False
      with b n show ?thesis by (intro exI [of _ "7 - n"]) (simp add: bit_pos_def)
    qed
  qed
  moreover have "(\<exists>j<8. bit_pos bitOrder j = n \<and> ?xs ! j)
      \<longleftrightarrow> (\<exists>j<8. bit_pos bitOrder j = n \<and> bit v (bit_pos bitOrder j))"
    using nth by blast
  moreover have "bit (assemble bitOrder 0 0 ?xs) n
      \<longleftrightarrow> (\<exists>j<8. bit_pos bitOrder j = n \<and> ?xs ! j)"
    using bit_assemble [OF n, of bitOrder 0 0 ?xs] by simp
  ultimately show "bit (assemble bitOrder 0 0 ?xs) n = bit v n"
    by blast
qed

lemma clock_log_facts:
  assumes "l = [] \<or> l = [GPIO_Write c x]"
  shows "samples_taken q l = 0" and "c \<noteq> p \<Longrightarrow> driven_levels p l = []"
  using assms by auto

lemma shiftOut_step:
  assumes t: "table_ok b w" and wr: "writable b w (ucast dO)" and i: "i < 8"
    and ne: "dO \<noteq> cO"
  shows "\<exists>l. shiftOut_loop b dO cO bitOrder v i w
           = shiftOut_loop b dO cO bitOrder v (Suc i)
               (w\<lparr>hal_log := hal_log w
                   @ GPIO_Write (ucast dO) (of_bool (bit v (bit_pos bitOrder i))) # l\<rparr>)
         \<and> driven_levels (ucast dO) l = [] \<and> samples_taken q l = 0"
proof -
  define bv :: u8 where "bv = of_bool (bit v (bit_pos bitOrder i))"
  define L where "L = hal_log w"
  have pne: "(ucast cO :: pin_t) \<noteq> ucast dO"
    using ne ucast_pin_inj [of cO dO] by auto
  have bv: "(if bitOrder = LSBFIRST then not_not (ucast v AND push_bit i 1)
             else not_not (ucast v AND push_bit (7 - i) 1)) = bv"
  proof (cases "bitOrder = LSBFIRST")
    case True
    with not_not_bit [OF i, of v] show ?thesis
      by (simp only: bv_def bit_pos_def refl if_True)
  next
    case False
    have "7 - i < 8" by simp
    from not_not_bit [OF this, of v] False show ?thesis
      by (simp only: bv_def bit_pos_def if_False)
  qed
  have d1: "digitalWrite b (ucast dO) bv w = Inr (w\<lparr>hal_log := L @ [GPIO_Write (ucast dO) bv]\<rparr>)"
    unfolding L_def by (rule digitalWrite_writable [OF t wr])
  have tl: "table_ok b (w\<lparr>hal_log := X\<rparr>)" for X
    using t by simp
  from digitalWrite_log [of b "w\<lparr>hal_log := L @ [GPIO_Write (ucast dO) bv]\<rparr>" "ucast cO" HIGH] tl
  obtain l1 where
    d2: "digitalWrite b (ucast cO) HIGH (w\<lparr>hal_log := L @ [GPIO_Write (ucast dO) bv]\<rparr>)
         = Inr (w\<lparr>hal_log := L @ GPIO_Write (ucast dO) bv # l1\<rparr>)"
    and l1: "l1 = [] \<or> l1 = [GPIO_Write (ucast cO) HIGH]" by auto
  from digitalWrite_log [of b "w\<lparr>hal_log := L @ GPIO_Write (ucast dO) bv # l1\<rparr>" "ucast cO" LOW] tl
  obtain l2 where
    d3: "digitalWrite b (ucast cO) LOW (w\<lparr>hal_log := L @ GPIO_Write (ucast dO) bv # l1\<rparr>)
         = Inr (w\<lparr>hal_log := L @ GPIO_Write (ucast dO) bv # l1 @ l2\<rparr>)"
    and l2: "l2 = [] \<or> l2 = [GPIO_Write (ucast cO) LOW]" by auto
  have "shiftOut_loop b dO cO bitOrder v i w
      = shiftOut_loop b dO cO bitOrder v (Suc i)
          (w\<lparr>hal_log := L @ GPIO_Write (ucast dO) bv # (l1 @ l2)\<rparr>)"
    by (subst shiftOut_loop.simps) (simp only: i if_True bv d1 d2 d3 sum.case Suc_eq_plus1)
  moreover have "driven_levels (ucast dO) (l1 @ l2) = []"
    using clock_log_facts(2) [OF l1 pne] clock_log_facts(2) [OF l2 pne]
    by (simp add: driven_levels_append)
  moreover have "samples_taken q (l1 @ l2) = 0"
    using clock_log_facts(1) [OF l1] clock_log_facts(1) [OF l2]
    by (simp add: samples_taken_append)
  ultimately show ?thesis unfolding bv_def L_def by blast
qed

lemma shiftOut_loop_log:
  assumes "table_ok b w" and "writable b w (ucast dO)" and "dO \<noteq> cO" and "i \<le> 8"
  shows "\<exists>l. shiftOut_loop b dO cO bitOrder v i w = Inr (w\<lparr>hal_log := hal_log w @ l\<rparr>)
        \<and> driven_levels (ucast dO) l = map (\<lambda>k. bit v (bit_pos bitOrder k)) [i..<8]
        \<and> samples_taken q l = 0"
  using assms
proof (induction "8 - i" arbitrary: i w)
  case 0
  then have "i = 8" by simp
  then have "shiftOut_loop b dO cO bitOrder v i w = Inr (w\<lparr>hal_log := hal_log w @ []\<rparr>)"
    by (subst shiftOut_loop.simps) simp
  with \<open>i = 8\<close> show ?case by (intro exI [of _ "[]"]) simp
next
  case (Suc n)
  then have i: "i < 8" by simp
  let ?c = "GPIO_Write (ucast dO) (of_bool (bit v (bit_pos bitOrder i)) :: u8)"
  from shiftOut_step [OF Suc.prems(1,2) i Suc.prems(3), of bitOrder v q] obtain l where
    step: "shiftOut_loop b dO cO bitOrder v i w
           = shiftOut_loop b dO cO bitOrder v (Suc i) (w\<lparr>hal_log := hal_log w @ ?c # l\<rparr>)"
    and l: "driven_levels (ucast dO) l = []" "samples_taken q l = 0" by blast
  let ?w' = "w\<lparr>hal_log := hal_log w @ ?c # l\<rparr>"
  have "n = 8 - Suc i" using Suc.hyps(2) by simp
  moreover have "table_ok b ?w'" "writable b ?w' (ucast dO)"
    using Suc.prems by simp_all
  moreover have "Suc i \<le> 8" using i by simp
  ultimately obtain l' where
    rest: "shiftOut_loop b dO cO bitOrder v (Suc i) ?w' = Inr (?w'\<lparr>hal_log := hal_log ?w' @ l'\<rparr>)"
    and l': "driven_levels (ucast dO) l' = map (\<lambda>k. bit v (bit_pos bitOrder k)) [Suc i..<8]"
      "samples_taken q l' = 0"
    using Suc.hyps(1) [of "Suc i" ?w'] Suc.prems(3) by blast
  have "shiftOut_loop b dO cO bitOrder v i w = Inr (w\<lparr>hal_log := hal_log w @ (?c # l @ l')\<rparr>)"
    using step rest by simp
  moreover have "driven_levels (ucast dO) (?c # l @ l')
      = map (\<lambda>k. bit v (bit_pos bitOrder k)) [i..<8]"
    using l l' i by (simp add: driven_levels_append upt_conv_Cons)
  moreover have "samples_taken q (?c # l @ l') = 0"
    using l l' by (simp add: samples_taken_append)
  ultimately show ?case by blast
qed


lemma shiftIn_step:
  assumes t: "table_ok b w" and rd: "readable b w (ucast dI)"
    and hw: "gpio_in w = shift_register_loopback outPin (ucast dI)"
    and i: "i < 8"
    and s: "samples_taken (ucast dI) (hal_log w) < length (driven_levels outPin (hal_log w))"
  shows "\<exists>l. shiftIn_loop b dI cI bitOrder i val w
           = shiftIn_loop b dI cI bitOrder (Suc i)
               (val OR push_bit (bit_pos bitOrder i)
                  (of_bool (driven_levels outPin (hal_log w) ! samples_taken (ucast dI) (hal_log w))))
               (w\<lparr>hal_log := hal_log w @ l\<rparr>)
         \<and> samples_taken (ucast dI) l = Suc 0"
proof -
  define L where "L = hal_log w"
  define c where "c = driven_levels outPin L ! samples_taken (ucast dI) L"
  define inPin :: pin_t where "inPin = ucast dI"
  have tl: "table_ok b (w\<lparr>hal_log := X\<rparr>)" for X
    using t by simp
  have rl: "readable b (w\<lparr>hal_log := X\<rparr>) inPin" for X
    using rd by (simp add: inPin_def)
  from digitalWrite_log [of b w "ucast cI" HIGH] t
  obtain l1 where
    d1: "digitalWrite b (ucast cI) HIGH w = Inr (w\<lparr>hal_log := L @ l1\<rparr>)"
    and l1: "l1 = [] \<or> l1 = [GPIO_Write (ucast cI) HIGH]" by (auto simp: L_def)
  have s1: "samples_taken inPin (L @ l1) = samples_taken inPin L"
    using clock_log_facts(1) [OF l1] by (simp add: samples_taken_append)
  have "shift_register_loopback outPin inPin (L @ l1) inPin = of_bool c"
    using s s1 by (simp add: shift_register_loopback_def driven_levels_append nth_append
        c_def L_def inPin_def)
  then have d2: "digitalRead b inPin (w\<lparr>hal_log := L @ l1\<rparr>)
      = Inr (of_bool c, w\<lparr>hal_log := L @ l1 @ [GPIO_Read inPin]\<rparr>)"
    using digitalRead_readable [OF tl rl, of "L @ l1"] hw by (simp add: inPin_def)
  from digitalWrite_log [of b "w\<lparr>hal_log := L @ l1 @ [GPIO_Read inPin]\<rparr>" "ucast cI" LOW] tl
  obtain l2 where
    d3: "digitalWrite b (ucast cI) LOW (w\<lparr>hal_log := L @ l1 @ [GPIO_Read inPin]\<rparr>)
         = Inr (w\<lparr>hal_log := L @ l1 @ GPIO_Read inPin # l2\<rparr>)"
    and l2: "l2 = [] \<or> l2 = [GPIO_Write (ucast cI) LOW]" by auto
  have v: "(if bitOrder = LSBFIRST
            then ucast ((ucast val :: u32) OR push_bit i (of_bool c))
            else ucast ((ucast val :: u32) OR push_bit (7 - i) (of_bool c)))
      = val OR push_bit (bit_pos bitOrder i) (of_bool c)"
  proof (cases "bitOrder = LSBFIRST")
    case True
    with or_sample [OF i, of val c] show ?thesis
      by (simp only: bit_pos_def refl if_True)
  next
    case False
    have "7 - i < 8" by simp
    from or_sample [OF this, of val c] False show ?thesis
      by (simp only: bit_pos_def if_False)
  qed
  have "shiftIn_loop b dI cI bitOrder i val w
      = shiftIn_loop b dI cI bitOrder (Suc i)
          (val OR push_bit (bit_pos bitOrder i) (of_bool c))
          (w\<lparr>hal_log := L @ (l1 @ GPIO_Read inPin # l2)\<rparr>)"
    by (subst shiftIn_loop.simps)
      (simp only: i if_True d1 d2 [unfolded inPin_def] d3 [unfolded inPin_def] v
        sum.case prod.case Suc_eq_plus1 inPin_def)
  moreover have "samples_taken inPin (l1 @ GPIO_Read inPin # l2) = Suc 0"
    using clock_log_facts(1) [OF l1] clock_log_facts(1) [OF l2]
    by (simp add: samples_taken_append)
  ultimately show ?thesis unfolding c_def L_def inPin_def by blast
qed

lemma shiftIn_loop_assembles:
  assumes "table_ok b w" and "readable b w (ucast dI)"
    and "gpio_in w = shift_register_loopback outPin (ucast dI)"
    and "i \<le> 8"
    and "samples_taken (ucast dI) (hal_log w) + (8 - i) \<le> length (driven_levels outPin (hal_log w))"
  shows "\<exists>w'. shiftIn_loop b dI cI bitOrder i val w
           = Inr (assemble bitOrder i val
                    (take (8 - i) (drop (samples_taken (ucast dI) (hal_log w))
                                        (driven_levels outPin (hal_log w)))), w')"
  using assms
proof (induction "8 - i" arbitrary: i val w)
  case 0
  then have "i = 8" by simp
  then show ?case
    by (subst shiftIn_loop.simps) simp
next
  case (Suc n)
  let ?s = "samples_taken (ucast dI) (hal_log w)"
  let ?D = "driven_levels outPin (hal_log w)"
  from Suc have i: "i < 8" by simp
  with Suc.prems(5) have s: "?s < length ?D" by simp
  from shiftIn_step [OF Suc.prems(1,2,3) i s, of cI bitOrder val] obtain l where
    step: "shiftIn_loop b dI cI bitOrder i val w
           = shiftIn_loop b dI cI bitOrder (Suc i)
               (val OR push_bit (bit_pos bitOrder i) (of_bool (?D ! ?s)))
               (w\<lparr>hal_log := hal_log w @ l\<rparr>)"
    and l: "samples_taken (ucast dI) l = Suc 0" by blast
  let ?w' = "w\<lparr>hal_log := hal_log w @ l\<rparr>"
  have n: "n = 8 - Suc i" using Suc.hyps(2) by simp
  have s': "samples_taken (ucast dI) (hal_log ?w') = Suc ?s"
    using l by (simp add: samples_taken_append)
  have D': "driven_levels outPin (hal_log ?w') = ?D @ driven_levels outPin l"
    by (simp add: driven_levels_append)
  have p1: "table_ok b ?w'" "readable b ?w' (ucast dI)"
    "gpio_in ?w' = shift_register_loopback outPin (ucast dI)"
    using Suc.prems by simp_all
  have p2: "samples_taken (ucast dI) (hal_log ?w') + (8 - Suc i)
      \<le> length (driven_levels outPin (hal_log ?w'))"
    using Suc.prems(5) i unfolding s' D' by simp
  from Suc.hyps(1) [OF n p1 _ p2, of "val OR push_bit (bit_pos bitOrder i) (of_bool (?D ! ?s))"] i
  obtain w'' where
    rest: "shiftIn_loop b dI cI bitOrder (Suc i)
             (val OR push_bit (bit_pos bitOrder i) (of_bool (?D ! ?s))) ?w'
           = Inr (assemble bitOrder (Suc i)
                    (val OR push_bit (bit_pos bitOrder i) (of_bool (?D ! ?s)))
                    (take (8 - Suc i) (drop (Suc ?s) (?D @ driven_levels outPin l))), w'')"
    unfolding s' D' by auto
  have e1: "take (8 - Suc i) (drop (Suc ?s) (?D @ driven_levels outPin l))
      = take (8 - Suc i) (drop (Suc ?s) ?D)"
    using Suc.prems(5) i by simp
  have e2: "take (8 - i) (drop ?s ?D) = ?D ! ?s # take (8 - Suc i) (drop (Suc ?s) ?D)"
  proof -
    have "8 - i = Suc (8 - Suc i)" using i by simp
    moreover have "drop ?s ?D = ?D ! ?s # drop (Suc ?s) ?D"
      using s by (simp add: Cons_nth_drop_Suc)
    ultimately show ?thesis by simp
  qed
  show ?case
    by (intro exI [of _ w'']) (simp only: step rest e1 e2 assemble.simps)
qed

lemma shift_pins:
  "table_ok core_board ((core_hw False False False)\<lparr>gpio_in := g\<rparr>)"
  "writable core_board ((core_hw False False False)\<lparr>gpio_in := g\<rparr>) 7"
  "writable core_board ((core_hw False False False)\<lparr>gpio_in := g\<rparr>) 6"
  "writable core_board ((core_hw False False False)\<lparr>gpio_in := g\<rparr>) 5"
  "readable core_board ((core_hw False False False)\<lparr>gpio_in := g\<rparr>) 2"
  by (simp_all add: core_simps writable_def readable_def)

text \<open>
  Claim C6, as stated: all pins are configured and available, and the data input reads
  the level last driven on the data output. \<^verbatim>\<open>shiftOut\<close> has finished with all eight
  bits before \<^verbatim>\<open>shiftIn\<close> takes its first sample, so \<^verbatim>\<open>shiftIn\<close> samples the last bit
  eight times: the byte 1, sent least significant bit first, comes back as 0.
\<close>

theorem shift_wire_loopback_counterexample:
  "table_ok core_board wire_hw
   \<and> writable core_board wire_hw 7 \<and> writable core_board wire_hw 6
   \<and> readable core_board wire_hw 2 \<and> writable core_board wire_hw 5
   \<and> gpio_in wire_hw = wire_loopback 7 2
   \<and> shift_round_trip core_board 7 6 2 5 LSBFIRST 1 wire_hw = Inr 0"
proof -
  have "shift_round_trip core_board 7 6 2 5 LSBFIRST 1 wire_hw = Inr 0"
    by (simp add: shift_round_trip_def shiftOut_def shiftIn_def shiftOut_loop.simps
        shiftIn_loop.simps wire_hw_def digitalWrite_def digitalRead_def core_simps
        HAL_GPIO_Write_def HAL_GPIO_Read_def wire_loopback_def not_not_def LSBFIRST_def
        HIGH_def LOW_def)
  moreover have "gpio_in wire_hw = wire_loopback 7 2"
    by (simp add: wire_hw_def)
  ultimately show ?thesis
    by (simp add: wire_hw_def shift_pins)
qed

text \<open>
  Claim C6, amended. Let the data output be writable, the data input readable, the
  clock of \<^verbatim>\<open>shiftOut\<close> a pin other than its data pin, and let a shift register sit
  between the two data pins, empty at the start: the \<open>n\<close>-th sample of the input is
  the \<open>n\<close>-th level driven on the output. Then for every byte and every bit order,
  \<^verbatim>\<open>shiftOut\<close> followed by \<^verbatim>\<open>shiftIn\<close> with the same bit order yields the byte.
\<close>

theorem shift_register_round_trip:
  assumes "table_ok b w"
    and "writable b w (ucast outData)" and "outData \<noteq> outClock"
    and "readable b w (ucast inData)"
    and "gpio_in w = shift_register_loopback (ucast outData) (ucast inData)"
    and "samples_taken (ucast inData) (hal_log w)
           = length (driven_levels (ucast outData) (hal_log w))"
  shows "shift_round_trip b outData outClock inData inClock bitOrder val w = Inr val"
proof -
  let ?bits = "map (\<lambda>k. bit val (bit_pos bitOrder k)) [0..<8]"
  from shiftOut_loop_log [OF assms(1,2,3), of 0 bitOrder val "ucast inData"] obtain l where
    out: "shiftOut b outData outClock bitOrder val w = Inr (w\<lparr>hal_log := hal_log w @ l\<rparr>)"
    and l: "driven_levels (ucast outData) l = ?bits" "samples_taken (ucast inData) l = 0"
    unfolding shiftOut_def by auto
  let ?w1 = "w\<lparr>hal_log := hal_log w @ l\<rparr>"
  have s1: "samples_taken (ucast inData) (hal_log ?w1)
      = length (driven_levels (ucast outData) (hal_log w))"
    using l(2) assms(6) by (simp add: samples_taken_append)
  have D1: "driven_levels (ucast outData) (hal_log ?w1)
      = driven_levels (ucast outData) (hal_log w) @ ?bits"
    using l(1) by (simp add: driven_levels_append)
  have p: "table_ok b ?w1" "readable b ?w1 (ucast inData)"
    "gpio_in ?w1 = shift_register_loopback (ucast outData) (ucast inData)"
    using assms by simp_all
  have q: "samples_taken (ucast inData) (hal_log ?w1) + (8 - 0)
      \<le> length (driven_levels (ucast outData) (hal_log ?w1))"
    unfolding s1 D1 by simp
  from shiftIn_loop_assembles [OF p _ q, of inClock bitOrder 0] obtain w2 where
    "shiftIn b inData inClock bitOrder ?w1
       = Inr (assemble bitOrder 0 0
                (take (8 - 0) (drop (samples_taken (ucast inData) (hal_log ?w1))
                                    (driven_levels (ucast outData) (hal_log ?w1)))), w2)"
    unfolding shiftIn_def by auto
  then have "shiftIn b inData inClock bitOrder ?w1 = Inr (assemble bitOrder 0 0 ?bits, w2)"
    unfolding s1 D1 by simp
  then have "shiftIn b inData inClock bitOrder ?w1 = Inr (val, w2)"
    by (simp only: assemble_bits)
  with out show ?thesis
    by (simp add: shift_round_trip_def)
qed

theorem shift_register_round_trip_witness:
  "table_ok core_board shift_register_hw
   \<and> writable core_board shift_register_hw (ucast (7 :: u8))
   \<and> (7 :: u8) \<noteq> 6
   \<and> readable core_board shift_register_hw (ucast (2 :: u8))
   \<and> gpio_in shift_register_hw = shift_register_loopback (ucast (7 :: u8)) (ucast (2 :: u8))
   \<and> samples_taken (ucast (2 :: u8)) (hal_log shift_register_hw)
        = length (driven_levels (ucast (7 :: u8)) (hal_log shift_register_hw))
   \<and> shift_round_trip core_board 7 6 2 5 LSBFIRST 0xA5 shift_register_hw = Inr 0xA5"
proof -
  have h: "table_ok core_board shift_register_hw"
    "writable core_board shift_register_hw (ucast (7 :: u8))"
    "(7 :: u8) \<noteq> 6"
    "readable core_board shift_register_hw (ucast (2 :: u8))"
    "gpio_in shift_register_hw = shift_register_loopback (ucast (7 :: u8)) (ucast (2 :: u8))"
    "samples_taken (ucast (2 :: u8)) (hal_log shift_register_hw)
        = length (driven_levels (ucast (7 :: u8)) (hal_log shift_register_hw))"
    by (simp_all add: shift_register_hw_def shift_pins) (simp_all add: core_hw_def)
  from shift_register_round_trip [OF h, of 5 LSBFIRST "0xA5"] h show ?thesis
    by simp
qed

end
